theory Spec2Isabelle
  imports Main "HOL-Library.Word" "HOL-Library.Sublist"
begin

unbundle bit_operations_syntax

section \<open>The tree package: data model\<close>

text \<open>
  The Go package \<^verbatim>\<open>tree\<close> builds an in-memory model of a directory and mirrors it to
  another place. Nodes are heap objects that point at each other (\<^verbatim>\<open>*Node\<close>), Go maps
  are reference values, and the slice \<^verbatim>\<open>Nodes []Node\<close> holds copies of nodes. The model
  keeps these three apart: a node heap (an address is an index into it), a heap of maps
  (each map an association list in insertion order, its keys distinct because the code
  only ever inserts an absent key), and node values.

  Everything the code asks of the operating system and of the Go standard library is a
  parameter: a record of primitives over an abstract world. Every call of a primitive is
  appended to a trace, with its error if it failed.
\<close>

type_synonym addr = nat
type_synonym maddr = nat
type_synonym bytes = "8 word list"
type_synonym FileMode = "32 word"
type_synonym Descriptor = string

definition File :: Descriptor where
  "File = ''FILE''"

definition Directory :: Descriptor where
  "Directory = ''DIRECTORY''"

definition Symbolic :: Descriptor where
  "Symbolic = ''SYMBOLIC''"

text \<open>The bits of \<^verbatim>\<open>os.FileMode\<close> the code looks at.\<close>

definition ModeDir :: FileMode where
  "ModeDir = push_bit 31 1"

definition ModeSymlink :: FileMode where
  "ModeSymlink = push_bit 27 1"

definition ModePerm :: FileMode where
  "ModePerm = 511"

definition IsDir :: "FileMode \<Rightarrow> bool" where
  "IsDir m = (m AND ModeDir \<noteq> 0)"

definition Perm :: "FileMode \<Rightarrow> FileMode" where
  "Perm m = m AND ModePerm"

datatype errno = ErrNotExist | ErrPermission | ErrNotDir | ErrIsDir | ErrNoSpace | ErrIO

datatype error =
    ExceptionNilNode
  | ExceptionInvalidFileNode
  | ExceptionInvalidDirectoryNode
  | ExceptionInvalidDirectory
  | OSError errno

datatype panic = PanicError error | PanicString string

text \<open>
  A call returns, panics (the state at the panic is kept: what was done stays done), or
  has no result within the fuel it was given.
\<close>

datatype ('s, 'a) outcome = Done 'a | Panic panic 's | Diverge

datatype Node = Node
  (parent: "addr option")
  (table: "maddr option")
  (depth: int)
  (content: "bytes option")
  (Path: string)
  (Dirname: string)
  (Name: string)
  (Type: Descriptor)
  (Checksum: "string option")
  (Nodes: "Node list")

record dir_entry =
  de_name :: string
  de_type :: FileMode

record file_info =
  fi_name :: string
  fi_mode :: FileMode

datatype call =
    Call_Stat string "errno option"
  | Call_ReadDir string "errno option"
  | Call_ReadFile string "errno option"
  | Call_Open string "errno option"
  | Call_Abs string "errno option"
  | Call_MkdirAll string FileMode "errno option"
  | Call_WriteFile string bytes FileMode "errno option"
  | Call_RemoveAll string "errno option"
  | Call_Printf string errno

text \<open>
  The primitives. \<open>os_read_file\<close> stands for reading a file to its end, by
  \<^verbatim>\<open>os.ReadFile\<close> or by \<^verbatim>\<open>os.Open\<close> and \<^verbatim>\<open>io.Copy\<close>; \<open>hash_hex\<close> is the SHA-256 digest
  in hexadecimal; \<open>map_range\<close> is the order in which \<^verbatim>\<open>range\<close> visits a map, which Go
  leaves open. A primitive that changes the world returns the new world also when it
  fails.
\<close>

record 'w os =
  os_stat :: "'w \<Rightarrow> string \<Rightarrow> errno + file_info"
  os_read_dir :: "'w \<Rightarrow> string \<Rightarrow> errno + dir_entry list"
  os_read_file :: "'w \<Rightarrow> string \<Rightarrow> errno + bytes"
  os_mkdir_all :: "'w \<Rightarrow> string \<Rightarrow> FileMode \<Rightarrow> 'w \<times> errno option"
  os_write_file :: "'w \<Rightarrow> string \<Rightarrow> bytes \<Rightarrow> FileMode \<Rightarrow> 'w \<times> errno option"
  os_remove_all :: "'w \<Rightarrow> string \<Rightarrow> 'w \<times> errno option"
  fp_join :: "string \<Rightarrow> string \<Rightarrow> string"
  fp_dir :: "string \<Rightarrow> string"
  fp_abs :: "'w \<Rightarrow> string \<Rightarrow> errno + string"
  hash_hex :: "bytes \<Rightarrow> string"
  map_range :: "(string \<times> addr) list \<Rightarrow> (string \<times> addr) list"

record 'w state =
  nodes :: "Node list"
  tables :: "(string \<times> addr) list list"
  world :: 'w
  trace :: "call list"

definition node :: "'w state \<Rightarrow> addr \<Rightarrow> Node" where
  "node s a = nodes s ! a"

definition upd_node :: "addr \<Rightarrow> (Node \<Rightarrow> Node) \<Rightarrow> 'w state \<Rightarrow> 'w state" where
  "upd_node a f s = s\<lparr>nodes := (nodes s)[a := f (nodes s ! a)]\<rparr>"

definition emit :: "call \<Rightarrow> 'w state \<Rightarrow> 'w state" where
  "emit c s = s\<lparr>trace := trace s @ [c]\<rparr>"

text \<open>Assignments to single fields of a node.\<close>

definition set_parent :: "addr option \<Rightarrow> Node \<Rightarrow> Node" where
  "set_parent v n = Node v (table n) (depth n) (content n) (Path n) (Dirname n) (Name n)
     (Type n) (Checksum n) (Nodes n)"

definition set_table :: "maddr option \<Rightarrow> Node \<Rightarrow> Node" where
  "set_table v n = Node (parent n) v (depth n) (content n) (Path n) (Dirname n) (Name n)
     (Type n) (Checksum n) (Nodes n)"

definition set_depth :: "int \<Rightarrow> Node \<Rightarrow> Node" where
  "set_depth v n = Node (parent n) (table n) v (content n) (Path n) (Dirname n) (Name n)
     (Type n) (Checksum n) (Nodes n)"

definition set_content :: "bytes option \<Rightarrow> Node \<Rightarrow> Node" where
  "set_content v n = Node (parent n) (table n) (depth n) v (Path n) (Dirname n) (Name n)
     (Type n) (Checksum n) (Nodes n)"

definition set_Type :: "Descriptor \<Rightarrow> Node \<Rightarrow> Node" where
  "set_Type v n = Node (parent n) (table n) (depth n) (content n) (Path n) (Dirname n) (Name n)
     v (Checksum n) (Nodes n)"

definition set_Checksum :: "string option \<Rightarrow> Node \<Rightarrow> Node" where
  "set_Checksum v n = Node (parent n) (table n) (depth n) (content n) (Path n) (Dirname n)
     (Name n) (Type n) v (Nodes n)"

definition set_Nodes :: "Node list \<Rightarrow> Node \<Rightarrow> Node" where
  "set_Nodes v n = Node (parent n) (table n) (depth n) (content n) (Path n) (Dirname n)
     (Name n) (Type n) (Checksum n) v"

section \<open>Queries\<close>

text \<open>
  \<^verbatim>\<open>Root\<close> follows the parent pointers. On a heap whose parent pointers form a cycle the
  Go function does not return; here that is the value \<open>None\<close>. (The source's inner test
  \<^verbatim>\<open>r != nil\<close> is always true where it stands.)
\<close>

partial_function (option) Root :: "'w state \<Rightarrow> addr \<Rightarrow> addr option" where
  "Root s n = (case parent (node s n) of None \<Rightarrow> Some n | Some r \<Rightarrow> Root s r)"

declare Root.simps [code]

definition Parent :: "'w state \<Rightarrow> addr \<Rightarrow> addr option" where
  "Parent s n = parent (node s n)"

definition Table :: "'w state \<Rightarrow> addr \<Rightarrow> maddr option" where
  "Table s n = table (node s n)"

text \<open>\<^verbatim>\<open>Map\<close> returns the map that the root's \<^verbatim>\<open>table\<close> field refers to.\<close>

definition Map :: "'w state \<Rightarrow> addr \<Rightarrow> maddr option option" where
  "Map s n = (case Root s n of None \<Rightarrow> None | Some r \<Rightarrow> Some (table (node s r)))"

text \<open>The entries a \<^verbatim>\<open>range\<close> over a map reference visits; none for the nil map.\<close>

definition entries :: "'w os \<Rightarrow> 'w state \<Rightarrow> maddr option \<Rightarrow> (string \<times> addr) list" where
  "entries os s m = (case m of None \<Rightarrow> [] | Some t \<Rightarrow> map_range os (tables s ! t))"

definition Files :: "'w os \<Rightarrow> 'w state \<Rightarrow> addr \<Rightarrow> addr list" where
  "Files os s n = filter (\<lambda>a. Type (node s a) = File) (map snd (entries os s (Table s n)))"

definition Directories :: "'w os \<Rightarrow> 'w state \<Rightarrow> addr \<Rightarrow> addr list" where
  "Directories os s n =
     filter (\<lambda>a. Type (node s a) = Directory) (map snd (entries os s (Table s n)))"

definition Permissions :: "'w os \<Rightarrow> 'w state \<Rightarrow> addr \<Rightarrow> ('w state, 'w state \<times> FileMode) outcome" where
  "Permissions os s n =
     (case os_stat os (world s) (Path (node s n)) of
        Inl e \<Rightarrow> Panic (PanicError (OSError e)) (emit (Call_Stat (Path (node s n)) (Some e)) s)
      | Inr info \<Rightarrow> Done (emit (Call_Stat (Path (node s n)) None) s, Perm (fi_mode info)))"

definition URI :: "'w os \<Rightarrow> 'w state \<Rightarrow> addr \<Rightarrow> ('w state, 'w state \<times> string) outcome" where
  "URI os s n =
     (case fp_abs os (world s) (Path (node s n)) of
        Inl e \<Rightarrow> Panic (PanicString ''Invalid Path - Unable to Calculate Full-System, Absolute Path'')
                   (emit (Call_Abs (Path (node s n)) (Some e)) s)
      | Inr p \<Rightarrow> Done (emit (Call_Abs (Path (node s n)) None) s, p))"

section \<open>Checksum\<close>

text \<open>
  \<^verbatim>\<open>checksum.SHA256\<close> opens the file and hashes all of it; a failure to open or to read is a
  panic. It returns a pointer to the digest, never nil.
\<close>

definition SHA256 :: "'w os \<Rightarrow> 'w state \<Rightarrow> string \<Rightarrow> ('w state, 'w state \<times> string option) outcome" where
  "SHA256 os s filepath =
     (case os_read_file os (world s) filepath of
        Inl e \<Rightarrow> Panic (PanicError (OSError e)) (emit (Call_Open filepath (Some e)) s)
      | Inr data \<Rightarrow> Done (emit (Call_Open filepath None) s, Some (hash_hex os data)))"

section \<open>Construction\<close>

text \<open>
  \<^verbatim>\<open>walk\<close> and \<^verbatim>\<open>add\<close> call each other; \<open>walk_entries\<close> is the loop of \<^verbatim>\<open>walk\<close> over the
  entries of the directory. A listing is whatever the primitive returns, so the depth of
  the recursion is not bounded by the model: each \<^verbatim>\<open>walk\<close> takes one unit of fuel.

  In \<^verbatim>\<open>add\<close>, a store into the nil map is Go's run-time panic.
\<close>

definition classify :: "dir_entry \<Rightarrow> Descriptor" where
  "classify entry =
     (if de_type entry AND ModeSymlink = ModeSymlink then Symbolic
      else if IsDir (de_type entry) then Directory
      else File)"

definition register :: "maddr option \<Rightarrow> string \<Rightarrow> addr \<Rightarrow> 'w state \<Rightarrow> ('w state, 'w state) outcome" where
  "register m key child s =
     (case m of
        None \<Rightarrow> Panic (PanicString ''assignment to entry in nil map'') s
      | Some t \<Rightarrow>
          (case map_of (tables s ! t) key of
             Some _ \<Rightarrow> Done s
           | None \<Rightarrow> Done (s\<lparr>tables := (tables s)[t := tables s ! t @ [(key, child)]]\<rparr>)))"

definition attach :: "addr \<Rightarrow> addr \<Rightarrow> 'w state \<Rightarrow> 'w state" where
  "attach n child s =
     (upd_node child
        (\<lambda>c. set_table (Some (length (tables s))) (set_depth (depth (node s n) + 1) (set_parent (Some n) c)))
        s)\<lparr>tables := tables s @ [[]]\<rparr>"

text \<open>The part of \<^verbatim>\<open>add\<close> after the child has been built: both index updates, then the copy.\<close>

definition enroll :: "addr \<Rightarrow> addr \<Rightarrow> 'w state \<Rightarrow> ('w state, 'w state) outcome" where
  "enroll n child s =
     (case Root s n of
        None \<Rightarrow> Diverge
      | Some r \<Rightarrow>
          (case register (table (node s r)) (Path (node s child)) child s of
             Done s1 \<Rightarrow>
               (case register (table (node s1 n)) (Path (node s1 child)) child s1 of
                  Done s2 \<Rightarrow> Done (upd_node n (\<lambda>p. set_Nodes (Nodes p @ [node s2 child]) p) s2)
                | Panic e s' \<Rightarrow> Panic e s'
                | Diverge \<Rightarrow> Diverge)
           | Panic e s' \<Rightarrow> Panic e s'
           | Diverge \<Rightarrow> Diverge))"

definition digest :: "'w os \<Rightarrow> 'w state \<Rightarrow> addr \<Rightarrow> ('w state, 'w state) outcome" where
  "digest os s child =
     (case URI os s child of
        Done (s1, uri) \<Rightarrow>
          (case SHA256 os s1 uri of
             Done (s2, hex) \<Rightarrow> Done (upd_node child (set_Checksum hex) s2)
           | Panic e s' \<Rightarrow> Panic e s'
           | Diverge \<Rightarrow> Diverge)
      | Panic e s' \<Rightarrow> Panic e s'
      | Diverge \<Rightarrow> Diverge)"

definition alloc :: "Node \<Rightarrow> 'w state \<Rightarrow> 'w state" where
  "alloc v s = s\<lparr>nodes := nodes s @ [v]\<rparr>"

text \<open>
  The body of the loop of \<^verbatim>\<open>walk\<close> up to the call of \<^verbatim>\<open>add\<close>: the child is allocated
  (all other fields zero), then its type is assigned. The new address is the heap's length.
\<close>

definition spawn :: "'w os \<Rightarrow> addr \<Rightarrow> dir_entry \<Rightarrow> 'w state \<Rightarrow> 'w state" where
  "spawn os n entry s =
     (let name = de_name entry;
          path = fp_join os (Path (node s n)) name;
          dirname = fp_dir os path;
          child = length (nodes s)
      in upd_node child (set_Type (classify entry))
           (alloc (Node None None 0 None path dirname name [] None []) s))"

fun walk :: "nat \<Rightarrow> 'w os \<Rightarrow> 'w state \<Rightarrow> addr \<Rightarrow> ('w state, 'w state) outcome"
  and walk_entries :: "nat \<Rightarrow> 'w os \<Rightarrow> 'w state \<Rightarrow> addr \<Rightarrow> dir_entry list \<Rightarrow> ('w state, 'w state) outcome"
  and add :: "nat \<Rightarrow> 'w os \<Rightarrow> 'w state \<Rightarrow> addr \<Rightarrow> addr \<Rightarrow> ('w state, 'w state) outcome"
where
  "walk 0 os s n = Diverge"
| "walk (Suc k) os s n =
     (case os_read_dir os (world s) (Path (node s n)) of
        Inl e \<Rightarrow>
          Done (emit (Call_Printf (Path (node s n)) e) (emit (Call_ReadDir (Path (node s n)) (Some e)) s))
      | Inr es \<Rightarrow> walk_entries k os (emit (Call_ReadDir (Path (node s n)) None) s) n es)"
| "walk_entries k os s n [] = Done s"
| "walk_entries k os s n (entry # es) =
     (case add k os (spawn os n entry s) n (length (nodes s)) of
        Done s1 \<Rightarrow> walk_entries k os s1 n es
      | Panic e s' \<Rightarrow> Panic e s'
      | Diverge \<Rightarrow> Diverge)"
| "add k os s n child =
     (case (if Type (node (attach n child s) child) = Directory then walk k os (attach n child s) child
            else if Type (node (attach n child s) child) = File then digest os (attach n child s) child
            else Done (attach n child s)) of
        Done s1 \<Rightarrow> enroll n child s1
      | Panic e s' \<Rightarrow> Panic e s'
      | Diverge \<Rightarrow> Diverge)"

text \<open>
  \<^verbatim>\<open>New\<close>: the path must name a directory; the root is allocated with a fresh, empty map
  and walked.
\<close>

definition New :: "nat \<Rightarrow> 'w os \<Rightarrow> 'w state \<Rightarrow> string \<Rightarrow> ('w state, 'w state \<times> addr) outcome" where
  "New k os s path =
     (case os_stat os (world s) path of
        Inl e \<Rightarrow> Panic (PanicError ExceptionInvalidDirectory) (emit (Call_Stat path (Some e)) s)
      | Inr descriptor \<Rightarrow>
          (let s0 = emit (Call_Stat path None) s in
           if \<not> IsDir (fi_mode descriptor) then Panic (PanicError ExceptionInvalidDirectory) s0
           else
             (let dirname = fp_dir os (fi_name descriptor);
                  root = length (nodes s0);
                  s1 = (alloc (Node None (Some (length (tables s0))) 0 None path dirname
                          (fi_name descriptor) Directory None []) s0)\<lparr>tables := tables s0 @ [[]]\<rparr>
              in case walk k os s1 root of
                   Done s2 \<Rightarrow> Done (s2, root)
                 | Panic e s' \<Rightarrow> Panic e s'
                 | Diverge \<Rightarrow> Diverge)))"

section \<open>Content accessor\<close>

text \<open>
  \<^verbatim>\<open>read\<close> and \<^verbatim>\<open>Contents\<close> take a node pointer that may be nil. The cache is the node's
  \<^verbatim>\<open>content\<close> field: nil until the first read, and \<^verbatim>\<open>os.ReadFile\<close> returns a slice that is
  not nil also for an empty file.
\<close>

definition read :: "'w os \<Rightarrow> 'w state \<Rightarrow> addr option \<Rightarrow> ('w state, 'w state) outcome" where
  "read os s n =
     (case n of
        None \<Rightarrow> Done s
      | Some a \<Rightarrow>
          if Type (node s a) = File \<and> content (node s a) = None then
            (case URI os s a of
               Done (s1, uri) \<Rightarrow>
                 (case os_read_file os (world s1) uri of
                    Inl e \<Rightarrow> Panic (PanicError (OSError e)) (emit (Call_ReadFile uri (Some e)) s1)
                  | Inr buffer \<Rightarrow>
                      Done (upd_node a (set_content (Some buffer)) (emit (Call_ReadFile uri None) s1)))
             | Panic e s' \<Rightarrow> Panic e s'
             | Diverge \<Rightarrow> Diverge)
          else Done s)"

definition Contents ::
  "'w os \<Rightarrow> 'w state \<Rightarrow> addr option \<Rightarrow> ('w state, 'w state \<times> bytes option \<times> error option) outcome" where
  "Contents os s n =
     (case n of
        None \<Rightarrow> Done (s, None, Some ExceptionNilNode)
      | Some a \<Rightarrow>
          if Type (node s a) \<noteq> File then Done (s, None, Some ExceptionInvalidFileNode)
          else
            (case read os s (Some a) of
               Done s1 \<Rightarrow> Done (s1, content (node s1 a), None)
             | Panic e s' \<Rightarrow> Panic e s'
             | Diverge \<Rightarrow> Diverge))"

section \<open>Mirror engine\<close>

text \<open>A nil slice is written as no bytes.\<close>

definition slice :: "bytes option \<Rightarrow> bytes" where
  "slice b = (case b of None \<Rightarrow> [] | Some x \<Rightarrow> x)"

definition exists :: "'w os \<Rightarrow> 'w state \<Rightarrow> string \<Rightarrow> 'w state \<times> bool" where
  "exists os s path =
     (case os_stat os (world s) path of
        Inr info \<Rightarrow> (emit (Call_Stat path None) s, True)
      | Inl err \<Rightarrow>
          if err = ErrNotExist then (emit (Call_Stat path (Some err)) s, False)
          else (emit (Call_Stat path (Some err)) s, False))"

text \<open>
  The loop over the directories is the same text in all three operations, the loop over
  the files is the same in \<^verbatim>\<open>Replicate\<close> and \<^verbatim>\<open>Replace\<close>. The arguments of a call are
  evaluated before the call: \<^verbatim>\<open>Permissions()\<close> stats the source before \<^verbatim>\<open>MkdirAll\<close> or
  \<^verbatim>\<open>WriteFile\<close> runs.
\<close>

fun mkdir_loop :: "'w os \<Rightarrow> string \<Rightarrow> 'w state \<Rightarrow> addr list \<Rightarrow> ('w state, 'w state) outcome" where
  "mkdir_loop os destination s [] = Done s"
| "mkdir_loop os destination s (directory # ds) =
     (let target = fp_join os destination (Path (node s directory))
      in case Permissions os s directory of
           Done (s1, perm) \<Rightarrow>
             (case os_mkdir_all os (world s1) target perm of
                (w, Some e) \<Rightarrow>
                  Panic (PanicError (OSError e)) (emit (Call_MkdirAll target perm (Some e)) (s1\<lparr>world := w\<rparr>))
              | (w, None) \<Rightarrow>
                  mkdir_loop os destination (emit (Call_MkdirAll target perm None) (s1\<lparr>world := w\<rparr>)) ds)
         | Panic e s' \<Rightarrow> Panic e s'
         | Diverge \<Rightarrow> Diverge)"

definition write_file :: "'w os \<Rightarrow> string \<Rightarrow> 'w state \<Rightarrow> addr \<Rightarrow> ('w state, 'w state) outcome" where
  "write_file os target s file =
     (case Contents os s (Some file) of
        Done (s1, contents, err) \<Rightarrow>
          (case err of
             Some e \<Rightarrow> Panic (PanicError e) s1
           | None \<Rightarrow>
               (case Permissions os s1 file of
                  Done (s2, perm) \<Rightarrow>
                    (case os_write_file os (world s2) target (slice contents) perm of
                       (w, Some e) \<Rightarrow>
                         Panic (PanicError (OSError e))
                           (emit (Call_WriteFile target (slice contents) perm (Some e)) (s2\<lparr>world := w\<rparr>))
                     | (w, None) \<Rightarrow>
                         Done (emit (Call_WriteFile target (slice contents) perm None) (s2\<lparr>world := w\<rparr>)))
                | Panic e s' \<Rightarrow> Panic e s'
                | Diverge \<Rightarrow> Diverge))
      | Panic e s' \<Rightarrow> Panic e s'
      | Diverge \<Rightarrow> Diverge)"

fun copy_loop :: "'w os \<Rightarrow> string \<Rightarrow> 'w state \<Rightarrow> addr list \<Rightarrow> ('w state, 'w state) outcome" where
  "copy_loop os destination s [] = Done s"
| "copy_loop os destination s (file # fs) =
     (let target = fp_join os destination (Path (node s file))
      in case os_stat os (world s) target of
           Inr info \<Rightarrow> copy_loop os destination (emit (Call_Stat target None) s) fs
         | Inl exception \<Rightarrow>
             if exception = ErrNotExist then
               (case write_file os target (emit (Call_Stat target (Some exception)) s) file of
                  Done s1 \<Rightarrow> copy_loop os destination s1 fs
                | Panic e s' \<Rightarrow> Panic e s'
                | Diverge \<Rightarrow> Diverge)
             else copy_loop os destination (emit (Call_Stat target (Some exception)) s) fs)"

fun write_loop :: "'w os \<Rightarrow> string \<Rightarrow> 'w state \<Rightarrow> addr list \<Rightarrow> ('w state, 'w state) outcome" where
  "write_loop os destination s [] = Done s"
| "write_loop os destination s (file # fs) =
     (let target = fp_join os destination (Path (node s file))
      in case write_file os target s file of
           Done s1 \<Rightarrow> write_loop os destination s1 fs
         | Panic e s' \<Rightarrow> Panic e s'
         | Diverge \<Rightarrow> Diverge)"

definition Copy :: "'w os \<Rightarrow> 'w state \<Rightarrow> addr \<Rightarrow> string \<Rightarrow> ('w state, 'w state) outcome" where
  "Copy os s n destination =
     (let directories = Directories os s n;
          files = Files os s n
      in case mkdir_loop os destination s directories of
           Done s1 \<Rightarrow> copy_loop os destination s1 files
         | Panic e s' \<Rightarrow> Panic e s'
         | Diverge \<Rightarrow> Diverge)"

definition Replicate :: "'w os \<Rightarrow> 'w state \<Rightarrow> addr \<Rightarrow> string \<Rightarrow> ('w state, 'w state) outcome" where
  "Replicate os s n destination =
     (let directories = Directories os s n;
          files = Files os s n
      in case mkdir_loop os destination s directories of
           Done s1 \<Rightarrow> write_loop os destination s1 files
         | Panic e s' \<Rightarrow> Panic e s'
         | Diverge \<Rightarrow> Diverge)"

definition remove_existing :: "'w os \<Rightarrow> 'w state \<Rightarrow> string \<Rightarrow> ('w state, 'w state) outcome" where
  "remove_existing os s destination =
     (case exists os s destination of
        (s1, True) \<Rightarrow>
          (case os_remove_all os (world s1) destination of
             (w, Some e) \<Rightarrow>
               Panic (PanicError (OSError e)) (emit (Call_RemoveAll destination (Some e)) (s1\<lparr>world := w\<rparr>))
           | (w, None) \<Rightarrow> Done (emit (Call_RemoveAll destination None) (s1\<lparr>world := w\<rparr>)))
      | (s1, False) \<Rightarrow> Done s1)"

definition Replace :: "'w os \<Rightarrow> 'w state \<Rightarrow> addr \<Rightarrow> string \<Rightarrow> ('w state, 'w state) outcome" where
  "Replace os s n destination =
     (case remove_existing os s destination of
        Done s0 \<Rightarrow>
          (let directories = Directories os s0 n;
               files = Files os s0 n
           in case mkdir_loop os destination s0 directories of
                Done s1 \<Rightarrow> write_loop os destination s1 files
              | Panic e s' \<Rightarrow> Panic e s'
              | Diverge \<Rightarrow> Diverge)
      | Panic e s' \<Rightarrow> Panic e s'
      | Diverge \<Rightarrow> Diverge)"

section \<open>A small file system\<close>

text \<open>
  An instance of the primitives, to run the code on: a file system as a list of absolute
  paths with what is there. Paths are taken relative to the working directory \<open>/\<close>;
  \<open>Locked\<close> is a path whose status cannot be read (it lies below a directory that may
  not be searched); a link is dangling. The digest is a stand-in for SHA-256: the
  bytes in hexadecimal.
\<close>

datatype fobj = Dir FileMode | Reg FileMode bytes | Link | Locked

type_synonym fsys = "(string \<times> fobj) list"

definition canon :: "string \<Rightarrow> string" where
  "canon p = (if take 1 p = ''/'' then p else ''/'' @ p)"

definition base_of :: "string \<Rightarrow> string" where
  "base_of p = rev (takeWhile (\<lambda>c. c \<noteq> CHR ''/'') (rev p))"

definition dir_of :: "string \<Rightarrow> string" where
  "dir_of p = (if CHR ''/'' \<in> set p then rev (drop 1 (dropWhile (\<lambda>c. c \<noteq> CHR ''/'') (rev p))) else ''.'')"

definition join_of :: "string \<Rightarrow> string \<Rightarrow> string" where
  "join_of a b = (if a = [] then b else if b = [] then a else a @ ''/'' @ b)"

definition fs_stat :: "fsys \<Rightarrow> string \<Rightarrow> errno + file_info" where
  "fs_stat w p =
     (case map_of w (canon p) of
        None \<Rightarrow> Inl ErrNotExist
      | Some (Dir m) \<Rightarrow> Inr \<lparr>fi_name = base_of p, fi_mode = m OR ModeDir\<rparr>
      | Some (Reg m b) \<Rightarrow> Inr \<lparr>fi_name = base_of p, fi_mode = m\<rparr>
      | Some Link \<Rightarrow> Inl ErrNotExist
      | Some Locked \<Rightarrow> Inl ErrPermission)"

definition entry_of :: "string \<times> fobj \<Rightarrow> dir_entry" where
  "entry_of kv =
     \<lparr>de_name = base_of (fst kv),
      de_type = (case snd kv of Dir m \<Rightarrow> ModeDir | Link \<Rightarrow> ModeSymlink | _ \<Rightarrow> 0)\<rparr>"

definition fs_read_dir :: "fsys \<Rightarrow> string \<Rightarrow> errno + dir_entry list" where
  "fs_read_dir w p =
     (case map_of w (canon p) of
        None \<Rightarrow> Inl ErrNotExist
      | Some (Dir m) \<Rightarrow> Inr (map entry_of (filter (\<lambda>kv. dir_of (fst kv) = canon p) w))
      | Some Locked \<Rightarrow> Inl ErrPermission
      | Some _ \<Rightarrow> Inl ErrNotDir)"

definition fs_read_file :: "fsys \<Rightarrow> string \<Rightarrow> errno + bytes" where
  "fs_read_file w p =
     (case map_of w (canon p) of
        None \<Rightarrow> Inl ErrNotExist
      | Some (Reg m b) \<Rightarrow> Inr b
      | Some (Dir m) \<Rightarrow> Inl ErrIsDir
      | Some Link \<Rightarrow> Inl ErrNotExist
      | Some Locked \<Rightarrow> Inl ErrPermission)"

text \<open>The directories to make for a path: the path cut after each component.\<close>

definition cuts :: "string \<Rightarrow> string list" where
  "cuts p = map (\<lambda>i. take i p) (filter (\<lambda>i. 1 < i \<and> (i = length p \<or> p ! i = CHR ''/'')) [0..<Suc (length p)])"

fun make_dirs :: "fsys \<Rightarrow> string list \<Rightarrow> FileMode \<Rightarrow> fsys \<times> errno option" where
  "make_dirs w [] m = (w, None)"
| "make_dirs w (q # qs) m =
     (case map_of w q of
        None \<Rightarrow> make_dirs (w @ [(q, Dir m)]) qs m
      | Some (Dir x) \<Rightarrow> make_dirs w qs m
      | Some Locked \<Rightarrow> (w, Some ErrPermission)
      | Some _ \<Rightarrow> (w, Some ErrNotDir))"

definition fs_mkdir_all :: "fsys \<Rightarrow> string \<Rightarrow> FileMode \<Rightarrow> fsys \<times> errno option" where
  "fs_mkdir_all w p m = make_dirs w (cuts (canon p)) m"

definition fs_write_file :: "fsys \<Rightarrow> string \<Rightarrow> bytes \<Rightarrow> FileMode \<Rightarrow> fsys \<times> errno option" where
  "fs_write_file w p d m =
     (case map_of w (canon p) of
        Some (Reg x b) \<Rightarrow> (map (\<lambda>kv. if fst kv = canon p then (fst kv, Reg x d) else kv) w, None)
      | Some (Dir x) \<Rightarrow> (w, Some ErrIsDir)
      | Some Locked \<Rightarrow> (w, Some ErrPermission)
      | Some Link \<Rightarrow> (w, Some ErrPermission)
      | None \<Rightarrow>
          (case map_of w (dir_of (canon p)) of
             Some (Dir x) \<Rightarrow> (w @ [(canon p, Reg m d)], None)
           | Some Locked \<Rightarrow> (w, Some ErrPermission)
           | Some _ \<Rightarrow> (w, Some ErrNotDir)
           | None \<Rightarrow> (w, Some ErrNotExist)))"

definition fs_remove_all :: "fsys \<Rightarrow> string \<Rightarrow> fsys \<times> errno option" where
  "fs_remove_all w p =
     (filter (\<lambda>kv. fst kv \<noteq> canon p \<and> take (Suc (length (canon p))) (fst kv) \<noteq> canon p @ ''/'') w, None)"

definition hex_digit :: "nat \<Rightarrow> char" where
  "hex_digit i = ''0123456789abcdef'' ! (i mod 16)"

definition hex_of :: "bytes \<Rightarrow> string" where
  "hex_of b = concat (map (\<lambda>x. [hex_digit (unat x div 16), hex_digit (unat x)]) b)"

definition fs_os :: "fsys os" where
  "fs_os =
     \<lparr>os_stat = fs_stat, os_read_dir = fs_read_dir, os_read_file = fs_read_file,
      os_mkdir_all = fs_mkdir_all, os_write_file = fs_write_file, os_remove_all = fs_remove_all,
      fp_join = join_of, fp_dir = dir_of, fp_abs = (\<lambda>w p. Inr (canon p)), hash_hex = hex_of,
      map_range = (\<lambda>xs. xs)\<rparr>"

definition boot :: "'w \<Rightarrow> 'w state" where
  "boot w = \<lparr>nodes = [], tables = [], world = w, trace = []\<rparr>"

text \<open>
  A directory \<open>r\<close> with a file \<open>a.txt\<close> holding \<open>hi\<close>, a link \<open>l\<close> and a
  directory \<open>b\<close> with a file \<open>c.txt\<close>.
\<close>

definition disk :: fsys where
  "disk =
     [(''/r'', Dir 493), (''/r/a.txt'', Reg 420 [104, 105]), (''/r/l'', Link),
      (''/r/b'', Dir 448), (''/r/b/c.txt'', Reg 384 [111, 107])]"

section \<open>Basic facts\<close>

lemma sel_set [simp]:
  "parent (set_parent v x) = v" "table (set_parent v x) = table x" "depth (set_parent v x) = depth x"
  "content (set_parent v x) = content x" "Path (set_parent v x) = Path x" "Dirname (set_parent v x) = Dirname x"
  "Name (set_parent v x) = Name x" "Type (set_parent v x) = Type x" "Checksum (set_parent v x) = Checksum x"
  "Nodes (set_parent v x) = Nodes x"
  "parent (set_table t x) = parent x" "table (set_table t x) = t" "depth (set_table t x) = depth x"
  "content (set_table t x) = content x" "Path (set_table t x) = Path x" "Dirname (set_table t x) = Dirname x"
  "Name (set_table t x) = Name x" "Type (set_table t x) = Type x" "Checksum (set_table t x) = Checksum x"
  "Nodes (set_table t x) = Nodes x"
  "parent (set_depth d x) = parent x" "table (set_depth d x) = table x" "depth (set_depth d x) = d"
  "content (set_depth d x) = content x" "Path (set_depth d x) = Path x" "Dirname (set_depth d x) = Dirname x"
  "Name (set_depth d x) = Name x" "Type (set_depth d x) = Type x" "Checksum (set_depth d x) = Checksum x"
  "Nodes (set_depth d x) = Nodes x"
  "parent (set_content b x) = parent x" "table (set_content b x) = table x" "depth (set_content b x) = depth x"
  "content (set_content b x) = b" "Path (set_content b x) = Path x" "Dirname (set_content b x) = Dirname x"
  "Name (set_content b x) = Name x" "Type (set_content b x) = Type x" "Checksum (set_content b x) = Checksum x"
  "Nodes (set_content b x) = Nodes x"
  "parent (set_Type y x) = parent x" "table (set_Type y x) = table x" "depth (set_Type y x) = depth x"
  "content (set_Type y x) = content x" "Path (set_Type y x) = Path x" "Dirname (set_Type y x) = Dirname x"
  "Name (set_Type y x) = Name x" "Type (set_Type y x) = y" "Checksum (set_Type y x) = Checksum x"
  "Nodes (set_Type y x) = Nodes x"
  "parent (set_Checksum h x) = parent x" "table (set_Checksum h x) = table x" "depth (set_Checksum h x) = depth x"
  "content (set_Checksum h x) = content x" "Path (set_Checksum h x) = Path x" "Dirname (set_Checksum h x) = Dirname x"
  "Name (set_Checksum h x) = Name x" "Type (set_Checksum h x) = Type x" "Checksum (set_Checksum h x) = h"
  "Nodes (set_Checksum h x) = Nodes x"
  "parent (set_Nodes xs x) = parent x" "table (set_Nodes xs x) = table x" "depth (set_Nodes xs x) = depth x"
  "content (set_Nodes xs x) = content x" "Path (set_Nodes xs x) = Path x" "Dirname (set_Nodes xs x) = Dirname x"
  "Name (set_Nodes xs x) = Name x" "Type (set_Nodes xs x) = Type x" "Checksum (set_Nodes xs x) = Checksum x"
  "Nodes (set_Nodes xs x) = xs"
  by (simp_all add: set_parent_def set_table_def set_depth_def set_content_def set_Type_def
      set_Checksum_def set_Nodes_def)

lemma emit_simps [simp]:
  "nodes (emit c s) = nodes s" "tables (emit c s) = tables s" "world (emit c s) = world s"
  "trace (emit c s) = trace s @ [c]" "node (emit c s) a = node s a"
  by (simp_all add: emit_def node_def)

lemma upd_node_simps [simp]:
  "tables (upd_node a f s) = tables s" "world (upd_node a f s) = world s"
  "trace (upd_node a f s) = trace s" "length (nodes (upd_node a f s)) = length (nodes s)"
  by (simp_all add: upd_node_def)

lemma node_upd_node:
  "node (upd_node a f s) b = (if b = a \<and> a < length (nodes s) then f (node s a) else node s b)"
  by (auto simp: upd_node_def node_def nth_list_update list_update_beyond)

lemma node_world_update [simp]: "node (s\<lparr>world := w\<rparr>) a = node s a"
  by (simp add: node_def)

text \<open>
  An induction rule for what holds of the state that \<^verbatim>\<open>walk\<close>, its loop and \<^verbatim>\<open>add\<close> return:
  one case for each way through the three functions.
\<close>

lemma build_induct:
  assumes fails: "\<And>s n e. os_read_dir os (world s) (Path (node s n)) = Inl e \<Longrightarrow>
      P s n (emit (Call_Printf (Path (node s n)) e) (emit (Call_ReadDir (Path (node s n)) (Some e)) s))"
    and lst: "\<And>k s n es s'. os_read_dir os (world s) (Path (node s n)) = Inr es \<Longrightarrow>
      walk_entries k os (emit (Call_ReadDir (Path (node s n)) None) s) n es = Done s' \<Longrightarrow>
      Q (emit (Call_ReadDir (Path (node s n)) None) s) n es s' \<Longrightarrow> P s n s'"
    and nil: "\<And>s n. Q s n [] s"
    and cons: "\<And>k s n e es s1 s'. add k os (spawn os n e s) n (length (nodes s)) = Done s1 \<Longrightarrow>
      R (spawn os n e s) n (length (nodes s)) s1 \<Longrightarrow>
      walk_entries k os s1 n es = Done s' \<Longrightarrow> Q s1 n es s' \<Longrightarrow> Q s n (e # es) s'"
    and dirc: "\<And>k s n c s1 s'. Type (node (attach n c s) c) = Directory \<Longrightarrow>
      walk k os (attach n c s) c = Done s1 \<Longrightarrow> P (attach n c s) c s1 \<Longrightarrow>
      enroll n c s1 = Done s' \<Longrightarrow> R s n c s'"
    and fil: "\<And>s n c s1 s'. Type (node (attach n c s) c) = File \<Longrightarrow>
      digest os (attach n c s) c = Done s1 \<Longrightarrow> enroll n c s1 = Done s' \<Longrightarrow> R s n c s'"
    and other: "\<And>s n c s'. Type (node (attach n c s) c) \<noteq> Directory \<Longrightarrow>
      Type (node (attach n c s) c) \<noteq> File \<Longrightarrow> enroll n c (attach n c s) = Done s' \<Longrightarrow> R s n c s'"
  shows "(\<forall>k s n s'. walk k os s n = Done s' \<longrightarrow> P s n s') \<and>
         (\<forall>k s n es s'. walk_entries k os s n es = Done s' \<longrightarrow> Q s n es s') \<and>
         (\<forall>k s n c s'. add k os s n c = Done s' \<longrightarrow> R s n c s')"
proof -
  have w: "o' = os \<longrightarrow> (\<forall>s'. walk k o' s n = Done s' \<longrightarrow> P s n s')"
    and we: "o' = os \<longrightarrow> (\<forall>s'. walk_entries k o' s n es = Done s' \<longrightarrow> Q s n es s')"
    and ad: "o' = os \<longrightarrow> (\<forall>s'. add k o' s n c = Done s' \<longrightarrow> R s n c s')" for k o' s n es c
  proof (induction k o' s n and k o' s n es and k o' s n c rule: walk_walk_entries_add.induct)
    case (1 o' s n)
    show ?case by simp
  next
    case (2 k o' s n)
    show ?case
    proof (intro allI impI)
      fix s' assume eq: "o' = os" and d: "walk (Suc k) o' s n = Done s'"
      show "P s n s'"
      proof (cases "os_read_dir os (world s) (Path (node s n))")
        case (Inl e)
        with d eq fails[OF Inl] show ?thesis by simp
      next
        case (Inr es)
        with d eq have w: "walk_entries k os (emit (Call_ReadDir (Path (node s n)) None) s) n es = Done s'"
          by simp
        have "Q (emit (Call_ReadDir (Path (node s n)) None) s) n es s'"
          by (rule "2.IH"[unfolded eq, OF Inr, rule_format, OF refl w])
        from lst[OF Inr w this] show ?thesis .
      qed
    qed
  next
    case (3 k o' s n)
    show ?case using nil by simp
  next
    case (4 k o' s n entry es)
    show ?case
    proof (intro allI impI)
      fix s' assume eq: "o' = os" and d: "walk_entries k o' s n (entry # es) = Done s'"
      then obtain s1 where a: "add k os (spawn os n entry s) n (length (nodes s)) = Done s1"
        and w: "walk_entries k os s1 n es = Done s'"
        by (cases "add k os (spawn os n entry s) n (length (nodes s))")
           (simp_all del: add.simps)
      have r: "R (spawn os n entry s) n (length (nodes s)) s1"
        by (rule "4.IH"(1)[unfolded eq, rule_format, OF refl a])
      have q: "Q s1 n es s'"
        by (rule "4.IH"(2)[unfolded eq, OF a, rule_format, OF refl w])
      from cons[OF a r w q] show "Q s n (entry # es) s'" .
    qed
  next
    case (5 k o' s n child)
    show ?case
    proof (intro allI impI)
      fix s' assume eq: "o' = os" and d: "add k o' s n child = Done s'"
      show "R s n child s'"
      proof (cases "Type (node (attach n child s) child) = Directory")
        case True
        with d eq obtain s1 where w: "walk k os (attach n child s) child = Done s1"
          and e: "enroll n child s1 = Done s'"
          by (auto split: outcome.splits)
        have "P (attach n child s) child s1"
          by (rule "5.IH"[unfolded eq, OF True, rule_format, OF refl w])
        from dirc[OF True w this e] show ?thesis .
      next
        case False
        show ?thesis
        proof (cases "Type (node (attach n child s) child) = File")
          case True
          with d eq False obtain s1 where w: "digest os (attach n child s) child = Done s1"
            and e: "enroll n child s1 = Done s'"
            by (auto split: outcome.splits)
          from fil[OF True w e] show ?thesis .
        next
          case F2: False
          with d eq False have "enroll n child (attach n child s) = Done s'" by simp
          from other[OF False F2 this] show ?thesis .
        qed
      qed
    qed
  qed
  show ?thesis
  proof (intro conjI allI impI)
    fix k s n s' assume "walk k os s n = Done s'"
    then show "P s n s'" by (rule w[rule_format, OF refl])
  next
    fix k s n es s' assume "walk_entries k os s n es = Done s'"
    then show "Q s n es s'" by (rule we[rule_format, OF refl])
  next
    fix k s n c s' assume "add k os s n c = Done s'"
    then show "R s n c s'" by (rule ad[rule_format, OF refl])
  qed
qed

declare add.simps [simp del]

section \<open>Elementary steps of the construction\<close>

text \<open>
  A store into a map that keeps an entry already there, as a function on association
  lists, and on the heap of maps.
\<close>

definition ins :: "string \<Rightarrow> addr \<Rightarrow> (string \<times> addr) list \<Rightarrow> (string \<times> addr) list" where
  "ins key c xs = (case map_of xs key of None \<Rightarrow> xs @ [(key, c)] | Some v \<Rightarrow> xs)"

definition put :: "maddr \<Rightarrow> string \<Rightarrow> addr \<Rightarrow> 'w state \<Rightarrow> 'w state" where
  "put t key c s = s\<lparr>tables := (tables s)[t := ins key c (tables s ! t)]\<rparr>"

lemma put_simps [simp]:
  "nodes (put t key c s) = nodes s" "world (put t key c s) = world s"
  "trace (put t key c s) = trace s" "length (tables (put t key c s)) = length (tables s)"
  "node (put t key c s) a = node s a"
  by (simp_all add: put_def node_def)

lemma register_Some [simp]: "register (Some t) key c s = Done (put t key c s)"
  by (auto simp: register_def put_def ins_def split: option.splits)

lemma register_None [simp]: "register None key c s = Panic (PanicString ''assignment to entry in nil map'') s"
  by (simp add: register_def)

lemma enroll_Done:
  "enroll n c s = Done s' \<longleftrightarrow>
     (\<exists>r g t. Root s n = Some r \<and> table (node s r) = Some g \<and> table (node s n) = Some t \<and>
        s' = upd_node n (\<lambda>p. set_Nodes (Nodes p @ [node s c]) p)
               (put t (Path (node s c)) c (put g (Path (node s c)) c s)))"
  by (cases "Root s n"; cases "table (node s (the (Root s n)))"; cases "table (node s n)")
     (auto simp: enroll_def)

lemma digest_Done:
  "digest os s c = Done s' \<longleftrightarrow>
     (\<exists>uri data. fp_abs os (world s) (Path (node s c)) = Inr uri \<and>
        os_read_file os (world s) uri = Inr data \<and>
        s' = upd_node c (set_Checksum (Some (hash_hex os data)))
               (emit (Call_Open uri None) (emit (Call_Abs (Path (node s c)) None) s)))"
  by (auto simp: digest_def URI_def SHA256_def split: sum.splits outcome.splits)

lemma attach_simps [simp]:
  "length (nodes (attach n c s)) = length (nodes s)" "tables (attach n c s) = tables s @ [[]]"
  "world (attach n c s) = world s" "trace (attach n c s) = trace s"
  by (simp_all add: attach_def)

lemma node_attach:
  "node (attach n c s) a =
     (if a = c \<and> c < length (nodes s)
      then set_table (Some (length (tables s))) (set_depth (depth (node s n) + 1) (set_parent (Some n) (node s c)))
      else node s a)"
  by (auto simp: attach_def node_def upd_node_def nth_list_update list_update_beyond)

lemma spawn_simps [simp]:
  "length (nodes (spawn os n e s)) = Suc (length (nodes s))" "tables (spawn os n e s) = tables s"
  "world (spawn os n e s) = world s" "trace (spawn os n e s) = trace s"
  by (simp_all add: spawn_def alloc_def Let_def)

lemma node_spawn:
  "node (spawn os n e s) a =
     (if a = length (nodes s)
      then Node None None 0 None (fp_join os (Path (node s n)) (de_name e))
             (fp_dir os (fp_join os (Path (node s n)) (de_name e))) (de_name e) (classify e) None []
      else if a < length (nodes s) then node s a else node (spawn os n e s) a)"
  by (auto simp: spawn_def alloc_def Let_def node_def upd_node_def nth_append set_Type_def)


definition same_core :: "Node \<Rightarrow> Node \<Rightarrow> bool" where
  "same_core x y \<longleftrightarrow>
     parent y = parent x \<and> table y = table x \<and> depth y = depth x \<and> content y = content x \<and>
     Path y = Path x \<and> Dirname y = Dirname x \<and> Name y = Name x \<and> Type y = Type x \<and>
     Checksum y = Checksum x"

definition frame :: "nat \<Rightarrow> addr \<Rightarrow> 'w state \<Rightarrow> 'w state \<Rightarrow> bool" where
  "frame m n s s' \<longleftrightarrow>
     m \<le> length (nodes s) \<and> length (nodes s) \<le> length (nodes s') \<and>
     length (tables s) \<le> length (tables s') \<and> world s' = world s \<and>
     prefix (trace s) (trace s') \<and>
     (\<forall>t<length (tables s). \<forall>key v. map_of (tables s ! t) key = Some v \<longrightarrow>
        map_of (tables s' ! t) key = Some v) \<and>
     (\<forall>a<m. a \<noteq> n \<longrightarrow> node s' a = node s a) \<and>
     (n < m \<longrightarrow> same_core (node s n) (node s' n) \<and> prefix (Nodes (node s n)) (Nodes (node s' n)))"

lemma same_core_refl [simp]: "same_core x x"
  by (simp add: same_core_def)

lemma same_core_trans: "same_core x y \<Longrightarrow> same_core y z \<Longrightarrow> same_core x z"
  by (simp add: same_core_def)

lemma frame_refl: "m \<le> length (nodes s) \<Longrightarrow> frame m n s s"
  by (simp add: frame_def)

lemma frame_trans: "frame m n s s1 \<Longrightarrow> frame m n s1 s2 \<Longrightarrow> frame m n s s2"
  unfolding frame_def
  by (intro conjI; (elim conjE)?) (auto intro: same_core_trans prefix_order.trans)

lemma frame_weaken: "frame m n s s' \<Longrightarrow> m' \<le> m \<Longrightarrow> frame m' n s s'"
  by (auto simp: frame_def)

lemma frame_below: "frame m x s s' \<Longrightarrow> m' \<le> x \<Longrightarrow> m' \<le> m \<Longrightarrow> frame m' n s s'"
  by (auto simp: frame_def)

lemma frame_emit: "m \<le> length (nodes s) \<Longrightarrow> frame m n s (emit c s)"
  by (simp add: frame_def)

lemma map_of_ins: "map_of xs key' = Some v \<Longrightarrow> map_of (ins key c xs) key' = Some v"
  by (auto simp: ins_def map_add_Some_iff split: option.splits)

lemma tables_put:
  "tables (put t key c s) ! u = (if u = t \<and> t < length (tables s) then ins key c (tables s ! t) else tables s ! u)"
  by (auto simp: put_def nth_list_update list_update_beyond)

lemma frame_put: "m \<le> length (nodes s) \<Longrightarrow> frame m n s (put t key c s)"
  by (auto simp: frame_def tables_put map_of_ins)

lemma frame_append:
  "m \<le> length (nodes s) \<Longrightarrow> frame m n s (upd_node n (\<lambda>p. set_Nodes (Nodes p @ xs) p) s)"
  by (auto simp: frame_def node_upd_node same_core_def)

lemma frame_enroll: "enroll n c s = Done s' \<Longrightarrow> m \<le> length (nodes s) \<Longrightarrow> frame m n s s'"
proof -
  assume e: "enroll n c s = Done s'" and m: "m \<le> length (nodes s)"
  from e obtain g t where
    s': "s' = upd_node n (\<lambda>p. set_Nodes (Nodes p @ [node s c]) p)
               (put t (Path (node s c)) c (put g (Path (node s c)) c s))"
    by (auto simp: enroll_Done)
  have "frame m n s (put g (Path (node s c)) c s)" using m by (rule frame_put)
  moreover have "frame m n (put g (Path (node s c)) c s) (put t (Path (node s c)) c (put g (Path (node s c)) c s))"
    using m by (intro frame_put) simp
  moreover have "frame m n (put t (Path (node s c)) c (put g (Path (node s c)) c s)) s'"
    unfolding s' using m by (intro frame_append) simp
  ultimately show ?thesis by (blast intro: frame_trans)
qed

lemma frame_attach: "m \<le> c \<Longrightarrow> m \<le> length (nodes s) \<Longrightarrow> frame m n s (attach n c s)"
  by (auto simp: frame_def node_attach nth_append)

lemma frame_spawn: "frame (length (nodes s)) n s (spawn os n e s)"
  by (auto simp: frame_def node_spawn)

lemma frame_digest: "digest os s c = Done s' \<Longrightarrow> m \<le> c \<Longrightarrow> m \<le> length (nodes s) \<Longrightarrow> frame m n s s'"
  by (auto simp: digest_Done frame_def node_upd_node)

lemma frame_build:
  "(\<forall>k s n s'. walk k os s n = Done s' \<longrightarrow> frame (length (nodes s)) n s s') \<and>
   (\<forall>k s n es s'. walk_entries k os s n es = Done s' \<longrightarrow> frame (length (nodes s)) n s s') \<and>
   (\<forall>k s n c s'. add k os s n c = Done s' \<longrightarrow> c < length (nodes s) \<longrightarrow> frame c n s s')"
proof (rule build_induct, goal_cases)
  case (1 s n e)
  show ?case by (simp add: frame_def)
next
  case (2 k s n es s')
  have "frame (length (nodes s)) n s (emit (Call_ReadDir (Path (node s n)) None) s)"
    by (simp add: frame_emit)
  with 2(3) show ?case by (auto intro: frame_trans)
next
  case (3 s n)
  show ?case by (simp add: frame_refl)
next
  case (4 k s n e es s1 s')
  let ?c = "length (nodes s)"
  from 4(2) have a: "frame ?c n (spawn os n e s) s1" by simp
  then have "?c \<le> length (nodes s1)" by (simp add: frame_def)
  with 4(4) have b: "frame ?c n s1 s'" by (rule frame_weaken)
  from frame_spawn a b show ?case by (blast intro: frame_trans)
next
  case (5 k s n c s1 s')
  show ?case
  proof
    assume c: "c < length (nodes s)"
    have a: "frame c n s (attach n c s)" using c by (intro frame_attach) simp_all
    have b: "frame c n (attach n c s) s1" using c by (intro frame_below[OF 5(3)]) simp_all
    then have "c \<le> length (nodes s1)" by (simp add: frame_def)
    from frame_enroll[OF 5(4) this] have "frame c n s1 s'" .
    with a b show "frame c n s s'" by (blast intro: frame_trans)
  qed
next
  case (6 s n c s1 s')
  show ?case
  proof
    assume c: "c < length (nodes s)"
    have a: "frame c n s (attach n c s)" using c by (intro frame_attach) simp_all
    have b: "frame c n (attach n c s) s1" using c by (intro frame_digest[OF 6(2)]) simp_all
    then have "c \<le> length (nodes s1)" by (simp add: frame_def)
    from frame_enroll[OF 6(3) this] have "frame c n s1 s'" .
    with a b show "frame c n s s'" by (blast intro: frame_trans)
  qed
next
  case (7 s n c s')
  show ?case
  proof
    assume c: "c < length (nodes s)"
    have a: "frame c n s (attach n c s)" using c by (intro frame_attach) simp_all
    have "c \<le> length (nodes (attach n c s))" using c by simp
    from frame_enroll[OF 7(3) this] have "frame c n (attach n c s) s'" .
    with a show "frame c n s s'" by (blast intro: frame_trans)
  qed
qed


section \<open>The invariant of the construction\<close>

text \<open>
  While a tree is built from the root at address \<open>b\<close>, whose map \<open>g\<close> is the global
  index: the parent pointers of the nodes above \<open>b\<close> lead down to \<open>b\<close> (\<open>chain\<close>),
  the global index holds nodes of the tree under their paths (\<open>global_ok\<close>), every other
  node has a map of its own that holds children of that node only (\<open>local_ok\<close>,
  \<open>own_tables\<close>). A node that \<^verbatim>\<open>add\<close> has returned from is \<open>fine\<close>: its type is one of the
  three tags and its digest is there exactly for a file, its value is among the copies its
  parent holds, and the global index has its path.
\<close>

lemma frame_walk: "walk k os s n = Done s' \<Longrightarrow> frame (length (nodes s)) n s s'"
  and frame_walk_entries: "walk_entries k os s n es = Done s' \<Longrightarrow> frame (length (nodes s)) n s s'"
  and frame_add: "add k os s n c = Done s' \<Longrightarrow> c < length (nodes s) \<Longrightarrow> frame c n s s'"
  using frame_build[of os] by simp_all

lemma frame_core: "frame m n s s' \<Longrightarrow> a < m \<Longrightarrow> same_core (node s a) (node s' a)"
  by (cases "a = n") (auto simp: frame_def)

lemma frame_Nodes: "frame m n s s' \<Longrightarrow> a < m \<Longrightarrow> prefix (Nodes (node s a)) (Nodes (node s' a))"
  by (cases "a = n") (auto simp: frame_def)

lemma frame_node: "frame m n s s' \<Longrightarrow> a < m \<Longrightarrow> a \<noteq> n \<Longrightarrow> node s' a = node s a"
  by (simp add: frame_def)

lemma frame_map_of:
  "frame m n s s' \<Longrightarrow> t < length (tables s) \<Longrightarrow> map_of (tables s ! t) key = Some v \<Longrightarrow>
   map_of (tables s' ! t) key = Some v"
  by (simp add: frame_def)

lemma frame_length: "frame m n s s' \<Longrightarrow> length (nodes s) \<le> length (nodes s')"
  by (simp add: frame_def)

lemma frame_world: "frame m n s s' \<Longrightarrow> world s' = world s"
  by (simp add: frame_def)

definition linked :: "addr \<Rightarrow> 'w state \<Rightarrow> addr \<Rightarrow> bool" where
  "linked b s a \<longleftrightarrow>
     (\<exists>p. parent (node s a) = Some p \<and> b \<le> p \<and> p < a \<and> depth (node s a) = depth (node s p) + 1)"

definition typed :: "Node \<Rightarrow> bool" where
  "typed x \<longleftrightarrow>
     (Type x = File \<or> Type x = Directory \<or> Type x = Symbolic) \<and> (Checksum x \<noteq> None \<longleftrightarrow> Type x = File)"

definition snapped :: "'w state \<Rightarrow> addr \<Rightarrow> bool" where
  "snapped s a \<longleftrightarrow> (\<exists>p. parent (node s a) = Some p \<and> p < a \<and> node s a \<in> set (Nodes (node s p)))"

definition indexed :: "addr \<Rightarrow> maddr \<Rightarrow> 'w state \<Rightarrow> addr \<Rightarrow> bool" where
  "indexed b g s a \<longleftrightarrow>
     (\<exists>v. map_of (tables s ! g) (Path (node s a)) = Some v \<and> b < v \<and> v < length (nodes s) \<and>
          Path (node s v) = Path (node s a))"

definition fine :: "addr \<Rightarrow> maddr \<Rightarrow> 'w state \<Rightarrow> addr \<Rightarrow> bool" where
  "fine b g s a \<longleftrightarrow> typed (node s a) \<and> snapped s a \<and> indexed b g s a"

definition same_links :: "Node \<Rightarrow> Node \<Rightarrow> bool" where
  "same_links x y \<longleftrightarrow>
     parent y = parent x \<and> table y = table x \<and> depth y = depth x \<and> Path y = Path x"

lemma same_core_links: "same_core x y \<Longrightarrow> same_links x y"
  by (simp add: same_core_def same_links_def)

lemma linked_links:
  assumes "linked b s a" "a < m" "\<And>x. x < m \<Longrightarrow> same_links (node s x) (node s' x)"
  shows "linked b s' a"
proof -
  from assms(1) obtain p where p: "parent (node s a) = Some p" "b \<le> p" "p < a"
    "depth (node s a) = depth (node s p) + 1"
    by (auto simp: linked_def)
  from assms(3)[of a] assms(3)[of p] assms(2) p(3)
  have "parent (node s' a) = parent (node s a)" "depth (node s' a) = depth (node s a)"
    "depth (node s' p) = depth (node s p)"
    by (simp_all add: same_links_def)
  with p show ?thesis by (auto simp: linked_def)
qed

lemma typed_core: "same_core x y \<Longrightarrow> typed x \<Longrightarrow> typed y"
  by (simp add: typed_def same_core_def)

lemma fine_frame:
  assumes f: "frame (length (nodes s)) n s s'" and g: "g < length (tables s)"
    and a: "a < length (nodes s)" "a \<noteq> n" and fine: "fine b g s a"
  shows "fine b g s' a"
proof -
  have na: "node s' a = node s a" using f a by (rule frame_node)
  from fine have t: "typed (node s a)" and sn: "snapped s a" and ix: "indexed b g s a"
    by (simp_all add: fine_def)
  from sn obtain p where p: "parent (node s a) = Some p" "p < a" "node s a \<in> set (Nodes (node s p))"
    by (auto simp: snapped_def)
  from p(2) a(1) have "p < length (nodes s)" by simp
  from frame_Nodes[OF f this] p(3) have "node s a \<in> set (Nodes (node s' p))"
    by (auto dest: set_mono_prefix)
  with p na have sn': "snapped s' a" by (auto simp: snapped_def)
  from ix obtain v where v: "map_of (tables s ! g) (Path (node s a)) = Some v" "b < v"
    "v < length (nodes s)" "Path (node s v) = Path (node s a)"
    by (auto simp: indexed_def)
  from frame_map_of[OF f g v(1)] have m: "map_of (tables s' ! g) (Path (node s a)) = Some v" .
  from frame_core[OF f v(3)] have "Path (node s' v) = Path (node s v)" by (simp add: same_core_def)
  with m v na frame_length[OF f] have "indexed b g s' a" by (auto simp: indexed_def)
  with t sn' na show ?thesis by (simp add: fine_def)
qed


definition rooted :: "addr \<Rightarrow> maddr \<Rightarrow> 'w state \<Rightarrow> bool" where
  "rooted b g s \<longleftrightarrow>
     parent (node s b) = None \<and> depth (node s b) = 0 \<and> table (node s b) = Some g \<and>
     g < length (tables s)"

definition chain :: "addr \<Rightarrow> nat \<Rightarrow> 'w state \<Rightarrow> bool" where
  "chain b m s \<longleftrightarrow> (\<forall>a. b < a \<and> a < m \<longrightarrow> linked b s a)"

definition global_ok :: "addr \<Rightarrow> maddr \<Rightarrow> nat \<Rightarrow> 'w state \<Rightarrow> bool" where
  "global_ok b g m s \<longleftrightarrow>
     (\<forall>key v. (key, v) \<in> set (tables s ! g) \<longrightarrow> b < v \<and> v < m \<and> Path (node s v) = key)"

definition local_ok :: "addr \<Rightarrow> maddr \<Rightarrow> nat \<Rightarrow> 'w state \<Rightarrow> bool" where
  "local_ok b g m s \<longleftrightarrow>
     (\<forall>a. b < a \<and> a < m \<longrightarrow>
        (\<exists>t. table (node s a) = Some t \<and> g < t \<and> t < length (tables s) \<and>
           (\<forall>key v. (key, v) \<in> set (tables s ! t) \<longrightarrow>
              parent (node s v) = Some a \<and> b < v \<and> v < m \<and> Path (node s v) = key)))"

definition own_tables :: "addr \<Rightarrow> nat \<Rightarrow> 'w state \<Rightarrow> bool" where
  "own_tables b m s \<longleftrightarrow>
     (\<forall>a a'. b < a \<and> a < m \<and> b < a' \<and> a' < m \<and> table (node s a) = table (node s a') \<longrightarrow> a = a')"

definition ctx :: "addr \<Rightarrow> maddr \<Rightarrow> nat \<Rightarrow> 'w state \<Rightarrow> bool" where
  "ctx b g m s \<longleftrightarrow>
     b < m \<and> m \<le> length (nodes s) \<and> rooted b g s \<and> chain b m s \<and> global_ok b g m s \<and>
     local_ok b g m s \<and> own_tables b m s"

lemma Root_chain:
  assumes r: "parent (node s b) = None" and c: "chain b m s"
  shows "b \<le> a \<Longrightarrow> a < m \<Longrightarrow> Root s a = Some b"
proof (induction a rule: less_induct)
  case (less a)
  show ?case
  proof (cases "a = b")
    case True
    with r show ?thesis by (subst Root.simps) simp
  next
    case False
    with less.prems c have "linked b s a" by (simp add: chain_def)
    then obtain p where p: "parent (node s a) = Some p" "b \<le> p" "p < a"
      by (auto simp: linked_def)
    from less.IH[OF p(3) p(2)] p(3) less.prems(2) have "Root s p = Some b" by simp
    with p(1) show ?thesis by (subst Root.simps) simp
  qed
qed

lemma ctx_Root: "ctx b g m s \<Longrightarrow> b \<le> a \<Longrightarrow> a < m \<Longrightarrow> Root s a = Some b"
  by (rule Root_chain[of s b m]) (simp_all add: ctx_def rooted_def)

text \<open>What the invariant reads of a state: the nodes below the limit and the maps.\<close>

lemma ctx_same:
  assumes c: "ctx b g m s"
    and n: "\<And>a. a < m \<Longrightarrow> same_links (node s a) (node s' a)"
    and l: "length (nodes s) \<le> length (nodes s')"
    and t: "length (tables s) \<le> length (tables s')"
      "\<And>u. u < length (tables s) \<Longrightarrow> tables s' ! u = tables s ! u"
  shows "ctx b g m s'"
proof -
  from c have bm: "b < m" "m \<le> length (nodes s)" and r: "rooted b g s" and ch: "chain b m s"
    and go: "global_ok b g m s" and lo: "local_ok b g m s" and ow: "own_tables b m s"
    by (simp_all add: ctx_def)
  have eq: "parent (node s' a) = parent (node s a)" "depth (node s' a) = depth (node s a)"
    "table (node s' a) = table (node s a)" "Path (node s' a) = Path (node s a)" if "a < m" for a
    using n[OF that] by (simp_all add: same_links_def)
  from r bm eq[of b] t(1) have r': "rooted b g s'" by (simp add: rooted_def)
  have ch': "chain b m s'"
    unfolding chain_def
  proof (intro allI impI)
    fix a assume a: "b < a \<and> a < m"
    with ch have "linked b s a" by (simp add: chain_def)
    then show "linked b s' a" using a n by (intro linked_links[of b s a m s']) simp_all
  qed
  from r have g: "g < length (tables s)" by (simp add: rooted_def)
  have go': "global_ok b g m s'"
    unfolding global_ok_def
  proof (intro allI impI)
    fix key v assume "(key, v) \<in> set (tables s' ! g)"
    with t(2)[OF g] have "(key, v) \<in> set (tables s ! g)" by simp
    with go have "b < v \<and> v < m \<and> Path (node s v) = key" by (simp add: global_ok_def)
    with eq[of v] show "b < v \<and> v < m \<and> Path (node s' v) = key" by simp
  qed
  have lo': "local_ok b g m s'"
    unfolding local_ok_def
  proof (intro allI impI)
    fix a assume a: "b < a \<and> a < m"
    with lo obtain u where u: "table (node s a) = Some u" "g < u" "u < length (tables s)"
      "\<forall>key v. (key, v) \<in> set (tables s ! u) \<longrightarrow> parent (node s v) = Some a \<and> b < v \<and> v < m \<and> Path (node s v) = key"
      unfolding local_ok_def by blast
    have "\<forall>key v. (key, v) \<in> set (tables s' ! u) \<longrightarrow>
        parent (node s' v) = Some a \<and> b < v \<and> v < m \<and> Path (node s' v) = key"
    proof (intro allI impI)
      fix key v assume "(key, v) \<in> set (tables s' ! u)"
      with t(2)[OF u(3)] have "(key, v) \<in> set (tables s ! u)" by simp
      with u(4) have "parent (node s v) = Some a \<and> b < v \<and> v < m \<and> Path (node s v) = key" by blast
      with eq[of v] show "parent (node s' v) = Some a \<and> b < v \<and> v < m \<and> Path (node s' v) = key" by simp
    qed
    with u a eq[of a] t(1)
    show "\<exists>t. table (node s' a) = Some t \<and> g < t \<and> t < length (tables s') \<and>
        (\<forall>key v. (key, v) \<in> set (tables s' ! t) \<longrightarrow>
           parent (node s' v) = Some a \<and> b < v \<and> v < m \<and> Path (node s' v) = key)"
      by (intro exI[of _ u]) simp
  qed
  have ow': "own_tables b m s'"
    unfolding own_tables_def
  proof (intro allI impI)
    fix a a' assume h: "b < a \<and> a < m \<and> b < a' \<and> a' < m \<and> table (node s' a) = table (node s' a')"
    with eq[of a] eq[of a'] have "table (node s a) = table (node s a')" by simp
    with h ow show "a = a'" unfolding own_tables_def by blast
  qed
  from bm l r' ch' go' lo' ow' show ?thesis by (simp add: ctx_def)
qed

lemma ctx_emit: "ctx b g m s \<Longrightarrow> ctx b g m (emit c s)"
  by (rule ctx_same) (simp_all add: same_links_def)

lemma ctx_spawn: "ctx b g m s \<Longrightarrow> ctx b g m (spawn os n e s)"
proof (rule ctx_same)
  assume c: "ctx b g m s"
  fix a assume "a < m"
  with c have "a < length (nodes s)" by (simp add: ctx_def)
  then show "same_links (node s a) (node (spawn os n e s) a)" by (simp add: node_spawn same_links_def)
qed simp_all

lemma ctx_digest: "ctx b g m s \<Longrightarrow> digest os s c = Done s' \<Longrightarrow> ctx b g m s'"
proof (rule ctx_same)
  assume d: "digest os s c = Done s'"
  fix a
  from d show "same_links (node s a) (node s' a)"
    by (auto simp: digest_Done node_upd_node same_links_def)
  from d show "length (nodes s) \<le> length (nodes s')" "length (tables s) \<le> length (tables s')"
    by (auto simp: digest_Done)
  fix u from d show "tables s' ! u = tables s ! u" by (auto simp: digest_Done)
qed


lemma ctx_attach:
  assumes c: "ctx b g c s" and n: "b \<le> n" "n < c" and l: "c < length (nodes s)"
  shows "ctx b g (Suc c) (attach n c s)"
proof -
  let ?s = "attach n c s"
  from c have r: "rooted b g s" and ch: "chain b c s"
    and go: "global_ok b g c s" and lo: "local_ok b g c s" and ow: "own_tables b c s"
    by (simp_all add: ctx_def)
  from r have g: "g < length (tables s)" by (simp add: rooted_def)
  have old: "node ?s a = node s a" if "a < c" for a using that by (simp add: node_attach)
  have new: "parent (node ?s c) = Some n" "depth (node ?s c) = depth (node s n) + 1"
    "table (node ?s c) = Some (length (tables s))"
    using l by (simp_all add: node_attach)
  have tb: "tables ?s ! u = tables s ! u" if "u < length (tables s)" for u
    using that by (simp add: nth_append)
  from r n old[of b] have r': "rooted b g ?s" by (simp add: rooted_def)
  have ch': "chain b (Suc c) ?s"
    unfolding chain_def
  proof (intro allI impI)
    fix a assume a: "b < a \<and> a < Suc c"
    show "linked b ?s a"
    proof (cases "a = c")
      case True
      with new n old[of n] show ?thesis by (simp add: linked_def)
    next
      case False
      with a have ac: "a < c" by simp
      with a ch have "linked b s a" by (simp add: chain_def)
      then show ?thesis using ac old by (intro linked_links[of b s a c ?s]) (simp_all add: same_links_def)
    qed
  qed
  have go': "global_ok b g (Suc c) ?s"
    unfolding global_ok_def
  proof (intro allI impI)
    fix key v assume "(key, v) \<in> set (tables ?s ! g)"
    with tb[OF g] have "(key, v) \<in> set (tables s ! g)" by simp
    with go have "b < v \<and> v < c \<and> Path (node s v) = key" by (simp add: global_ok_def)
    with old[of v] show "b < v \<and> v < Suc c \<and> Path (node ?s v) = key" by simp
  qed
  have lo': "local_ok b g (Suc c) ?s"
    unfolding local_ok_def
  proof (intro allI impI)
    fix a assume a: "b < a \<and> a < Suc c"
    show "\<exists>t. table (node ?s a) = Some t \<and> g < t \<and> t < length (tables ?s) \<and>
        (\<forall>key v. (key, v) \<in> set (tables ?s ! t) \<longrightarrow>
           parent (node ?s v) = Some a \<and> b < v \<and> v < Suc c \<and> Path (node ?s v) = key)"
    proof (cases "a = c")
      case True
      with new g show ?thesis by (intro exI[of _ "length (tables s)"]) simp
    next
      case False
      with a have ac: "a < c" by simp
      with a lo obtain u where u: "table (node s a) = Some u" "g < u" "u < length (tables s)"
        "\<forall>key v. (key, v) \<in> set (tables s ! u) \<longrightarrow> parent (node s v) = Some a \<and> b < v \<and> v < c \<and> Path (node s v) = key"
        unfolding local_ok_def by blast
      have "\<forall>key v. (key, v) \<in> set (tables ?s ! u) \<longrightarrow>
          parent (node ?s v) = Some a \<and> b < v \<and> v < Suc c \<and> Path (node ?s v) = key"
      proof (intro allI impI)
        fix key v assume "(key, v) \<in> set (tables ?s ! u)"
        with tb[OF u(3)] have "(key, v) \<in> set (tables s ! u)" by simp
        with u(4) have "parent (node s v) = Some a \<and> b < v \<and> v < c \<and> Path (node s v) = key" by blast
        with old[of v] show "parent (node ?s v) = Some a \<and> b < v \<and> v < Suc c \<and> Path (node ?s v) = key" by simp
      qed
      with u old[OF ac] show ?thesis by (intro exI[of _ u]) simp
    qed
  qed
  have tl: "\<exists>u. table (node s a) = Some u \<and> u < length (tables s)" if "b < a" "a < c" for a
    using lo that unfolding local_ok_def by blast
  have ow': "own_tables b (Suc c) ?s"
    unfolding own_tables_def
  proof (intro allI impI)
    fix a a' assume h: "b < a \<and> a < Suc c \<and> b < a' \<and> a' < Suc c \<and> table (node ?s a) = table (node ?s a')"
    show "a = a'"
    proof (cases "a = c")
      case True
      show ?thesis
      proof (rule ccontr)
        assume "a \<noteq> a'"
        with True h have a': "a' < c" by simp
        with h tl[of a'] old[OF a'] True new(3) show False by auto
      qed
    next
      case False
      with h have ac: "a < c" by simp
      show ?thesis
      proof (cases "a' = c")
        case True
        with h tl[of a] old[OF ac] new(3) ac show ?thesis by auto
      next
        case F: False
        with h have "a' < c" by simp
        with ac h old[of a] old[of a'] ow show ?thesis unfolding own_tables_def by auto
      qed
    qed
  qed
  from c l r' ch' go' lo' ow' show ?thesis by (simp add: ctx_def)
qed

lemma set_ins: "set (ins key c xs) \<subseteq> insert (key, c) (set xs)"
  by (auto simp: ins_def split: option.splits)

lemma ins_lookup: "\<exists>v. map_of (ins key c xs) key = Some v \<and> (key, v) \<in> set (ins key c xs)"
  by (auto simp: ins_def map_add_Some_iff split: option.splits dest: map_of_SomeD)


lemma enroll_shape:
  assumes e: "enroll n c s = Done s'" and r: "Root s n = Some b" "table (node s b) = Some g"
  shows "\<exists>t. table (node s n) = Some t \<and> (\<forall>u. u \<noteq> g \<longrightarrow> u \<noteq> t \<longrightarrow> tables s' ! u = tables s ! u)"
    and "node s' a = (if a = n \<and> n < length (nodes s)
            then set_Nodes (Nodes (node s n) @ [node s c]) (node s n) else node s a)"
    and "length (nodes s') = length (nodes s)" and "length (tables s') = length (tables s)"
    and "set (tables s' ! u) \<subseteq> insert (Path (node s c), c) (set (tables s ! u))"
    and "g < length (tables s) \<Longrightarrow>
           \<exists>v. map_of (tables s' ! g) (Path (node s c)) = Some v \<and> (Path (node s c), v) \<in> set (tables s' ! g)"
proof -
  let ?key = "Path (node s c)"
  from e r obtain t where t: "table (node s n) = Some t"
    and s': "s' = upd_node n (\<lambda>p. set_Nodes (Nodes p @ [node s c]) p) (put t ?key c (put g ?key c s))"
    by (auto simp: enroll_Done)
  let ?s1 = "put g ?key c s"
  have tb: "tables s' = tables (put t ?key c ?s1)" by (simp add: s')
  show "node s' a = (if a = n \<and> n < length (nodes s)
            then set_Nodes (Nodes (node s n) @ [node s c]) (node s n) else node s a)"
    by (simp add: s' node_upd_node)
  show "length (nodes s') = length (nodes s)" "length (tables s') = length (tables s)"
    by (simp_all add: s')
  show "set (tables s' ! u) \<subseteq> insert (?key, c) (set (tables s ! u))"
    using set_ins[of ?key c "tables s ! u"] set_ins[of ?key c "ins ?key c (tables s ! u)"]
    by (auto simp: tb tables_put)
  have "tables s' ! u = tables s ! u" if "u \<noteq> g" "u \<noteq> t" for u
    using that by (simp add: tb tables_put)
  with t show "\<exists>t. table (node s n) = Some t \<and> (\<forall>u. u \<noteq> g \<longrightarrow> u \<noteq> t \<longrightarrow> tables s' ! u = tables s ! u)"
    by simp
  show "\<exists>v. map_of (tables s' ! g) ?key = Some v \<and> (?key, v) \<in> set (tables s' ! g)"
    if g: "g < length (tables s)"
  proof -
    from ins_lookup[of ?key c "tables s ! g"] obtain v
      where v: "map_of (ins ?key c (tables s ! g)) ?key = Some v" by blast
    from g have "tables ?s1 ! g = ins ?key c (tables s ! g)" by (simp add: tables_put)
    with v have "map_of (tables ?s1 ! g) ?key = Some v" by simp
    then have "map_of (tables s' ! g) ?key = Some v"
      by (auto simp: tb tables_put[of t] map_of_ins)
    then show ?thesis by (auto dest: map_of_SomeD)
  qed
qed

lemma enroll_ctx:
  assumes e: "enroll n c s = Done s'" and c: "ctx b g m s"
    and n: "b \<le> n" "n < c" "c < m" and p: "parent (node s c) = Some n"
  shows "ctx b g m s'"
proof -
  from c have bm: "b < m" "m \<le> length (nodes s)" and r: "rooted b g s" and ch: "chain b m s"
    and go: "global_ok b g m s" and lo: "local_ok b g m s" and ow: "own_tables b m s"
    by (simp_all add: ctx_def)
  from r have g: "g < length (tables s)" and tb: "table (node s b) = Some g" by (simp_all add: rooted_def)
  from ctx_Root[OF c n(1)] n have root: "Root s n = Some b" by simp
  note sh = enroll_shape[OF e root tb]
  from sh(1) obtain t where t: "table (node s n) = Some t"
    and oth: "\<And>u. u \<noteq> g \<Longrightarrow> u \<noteq> t \<Longrightarrow> tables s' ! u = tables s ! u"
    by auto
  note nd = sh(2) and len = sh(3,4) and sub = sh(5)
  have eq: "parent (node s' a) = parent (node s a)" "depth (node s' a) = depth (node s a)"
    "table (node s' a) = table (node s a)" "Path (node s' a) = Path (node s a)" for a
    by (simp_all add: nd)
  from r len eq[of b] have r': "rooted b g s'" by (simp add: rooted_def)
  have ch': "chain b m s'"
    unfolding chain_def
  proof (intro allI impI)
    fix a assume a: "b < a \<and> a < m"
    with ch have "linked b s a" by (simp add: chain_def)
    then show "linked b s' a" using a eq by (intro linked_links[of b s a m s']) (simp_all add: same_links_def)
  qed
  have go': "global_ok b g m s'"
    unfolding global_ok_def
  proof (intro allI impI)
    fix key v assume "(key, v) \<in> set (tables s' ! g)"
    with sub[of g] have "(key, v) = (Path (node s c), c) \<or> (key, v) \<in> set (tables s ! g)" by auto
    then show "b < v \<and> v < m \<and> Path (node s' v) = key"
    proof
      assume "(key, v) = (Path (node s c), c)"
      with n eq[of c] show ?thesis by simp
    next
      assume "(key, v) \<in> set (tables s ! g)"
      with go eq[of v] show ?thesis by (simp add: global_ok_def)
    qed
  qed
  have lo': "local_ok b g m s'"
    unfolding local_ok_def
  proof (intro allI impI)
    fix a assume a: "b < a \<and> a < m"
    with lo obtain u where u: "table (node s a) = Some u" "g < u" "u < length (tables s)"
      "\<forall>key v. (key, v) \<in> set (tables s ! u) \<longrightarrow> parent (node s v) = Some a \<and> b < v \<and> v < m \<and> Path (node s v) = key"
      unfolding local_ok_def by blast
    have "\<forall>key v. (key, v) \<in> set (tables s' ! u) \<longrightarrow>
        parent (node s' v) = Some a \<and> b < v \<and> v < m \<and> Path (node s' v) = key"
    proof (intro allI impI)
      fix key v assume kv: "(key, v) \<in> set (tables s' ! u)"
      show "parent (node s' v) = Some a \<and> b < v \<and> v < m \<and> Path (node s' v) = key"
      proof (cases "u = t")
        case True
        have "n \<noteq> b" using True t tb u(2) by auto
        with n(1) have bn: "b < n" by simp
        from True t u(1) have "table (node s a) = table (node s n)" by simp
        with ow a bn n have an: "a = n" unfolding own_tables_def by auto
        from kv sub[of u] have "(key, v) = (Path (node s c), c) \<or> (key, v) \<in> set (tables s ! u)" by auto
        then show ?thesis
        proof
          assume "(key, v) = (Path (node s c), c)"
          with n p an eq[of c] show ?thesis by simp
        next
          assume "(key, v) \<in> set (tables s ! u)"
          with u(4) eq[of v] show ?thesis by simp
        qed
      next
        case False
        with u(2) oth[of u] have "tables s' ! u = tables s ! u" by simp
        with kv u(4) eq[of v] show ?thesis by simp
      qed
    qed
    with u a eq[of a] len
    show "\<exists>t. table (node s' a) = Some t \<and> g < t \<and> t < length (tables s') \<and>
        (\<forall>key v. (key, v) \<in> set (tables s' ! t) \<longrightarrow>
           parent (node s' v) = Some a \<and> b < v \<and> v < m \<and> Path (node s' v) = key)"
      by (intro exI[of _ u]) simp
  qed
  have ow': "own_tables b m s'"
    using ow unfolding own_tables_def eq .
  from bm len r' ch' go' lo' ow' show ?thesis by (simp add: ctx_def)
qed

lemma enroll_fine:
  assumes e: "enroll n c s = Done s'" and c: "ctx b g m s"
    and n: "b \<le> n" "n < c" "c < m" and p: "parent (node s c) = Some n" and t: "typed (node s c)"
  shows "fine b g s' c"
proof -
  from c have bm: "m \<le> length (nodes s)" and r: "rooted b g s" by (simp_all add: ctx_def)
  from r have g: "g < length (tables s)" and tb: "table (node s b) = Some g" by (simp_all add: rooted_def)
  from ctx_Root[OF c n(1)] n have root: "Root s n = Some b" by simp
  note sh = enroll_shape[OF e root tb]
  note nd = sh(2) and len = sh(3)
  from sh(6)[OF g] obtain v where
    v: "map_of (tables s' ! g) (Path (node s c)) = Some v" "(Path (node s c), v) \<in> set (tables s' ! g)"
    by auto
  from n have cn: "c \<noteq> n" by simp
  then have same: "node s' c = node s c" by (simp add: nd)
  from n bm have nl: "n < length (nodes s)" by simp
  then have "Nodes (node s' n) = Nodes (node s n) @ [node s c]" by (simp add: nd)
  with same p n have sn: "snapped s' c" by (simp add: snapped_def)
  from enroll_ctx[OF e c n p] have "global_ok b g m s'" by (simp add: ctx_def)
  with v(2) have "b < v \<and> v < m \<and> Path (node s' v) = Path (node s c)" by (simp add: global_ok_def)
  with v(1) same bm len have "indexed b g s' c" by (auto simp: indexed_def)
  with t same sn show ?thesis by (simp add: fine_def)
qed


definition blank :: "Node \<Rightarrow> bool" where
  "blank x \<longleftrightarrow> (Type x = File \<or> Type x = Directory \<or> Type x = Symbolic) \<and> Checksum x = None"

lemma classify_cases: "classify e = File \<or> classify e = Directory \<or> classify e = Symbolic"
  by (simp add: classify_def)

lemma Descriptor_distinct [simp]:
  "File \<noteq> Directory" "Directory \<noteq> File" "File \<noteq> Symbolic" "Symbolic \<noteq> File"
  "Directory \<noteq> Symbolic" "Symbolic \<noteq> Directory"
  by (simp_all add: File_def Directory_def Symbolic_def)

lemma enroll_length: "enroll n c s = Done s' \<Longrightarrow> length (nodes s') = length (nodes s)"
  by (auto simp: enroll_Done)

lemma digest_node:
  "digest os s c = Done s' \<Longrightarrow>
   length (nodes s') = length (nodes s) \<and>
   (\<exists>h. node s' c = (if c < length (nodes s) then set_Checksum (Some h) (node s c) else node s c))"
  by (auto simp: digest_Done node_upd_node)

lemma build_fine:
  "(\<forall>k s n s'. walk k os s n = Done s' \<longrightarrow>
      (\<forall>b g. ctx b g (length (nodes s)) s \<and> b \<le> n \<and> n < length (nodes s) \<longrightarrow>
         ctx b g (length (nodes s')) s' \<and>
         (\<forall>a. length (nodes s) \<le> a \<and> a < length (nodes s') \<longrightarrow> fine b g s' a))) \<and>
   (\<forall>k s n es s'. walk_entries k os s n es = Done s' \<longrightarrow>
      (\<forall>b g. ctx b g (length (nodes s)) s \<and> b \<le> n \<and> n < length (nodes s) \<longrightarrow>
         ctx b g (length (nodes s')) s' \<and>
         (\<forall>a. length (nodes s) \<le> a \<and> a < length (nodes s') \<longrightarrow> fine b g s' a))) \<and>
   (\<forall>k s n c s'. add k os s n c = Done s' \<longrightarrow>
      (\<forall>b g. ctx b g c s \<and> b \<le> n \<and> n < c \<and> Suc c = length (nodes s) \<and> blank (node s c) \<longrightarrow>
         ctx b g (length (nodes s')) s' \<and>
         (\<forall>a. c \<le> a \<and> a < length (nodes s') \<longrightarrow> fine b g s' a)))"
proof (rule build_induct, goal_cases)
  case (1 s n e)
  show ?case by (auto intro: ctx_emit)
next
  case (2 k s n es s')
  show ?case
  proof (intro allI impI)
    fix b g assume h: "ctx b g (length (nodes s)) s \<and> b \<le> n \<and> n < length (nodes s)"
    then have "ctx b g (length (nodes s)) (emit (Call_ReadDir (Path (node s n)) None) s)"
      by (simp add: ctx_emit)
    with 2(3) h show "ctx b g (length (nodes s')) s' \<and>
         (\<forall>a. length (nodes s) \<le> a \<and> a < length (nodes s') \<longrightarrow> fine b g s' a)"
      by simp
  qed
next
  case (3 s n)
  show ?case by auto
next
  case (4 k s n e es s1 s')
  let ?c = "length (nodes s)"
  let ?s0 = "spawn os n e s"
  show ?case
  proof (intro allI impI)
    fix b g assume h: "ctx b g ?c s \<and> b \<le> n \<and> n < ?c"
    then have c0: "ctx b g ?c ?s0" by (simp add: ctx_spawn)
    have bl: "blank (node ?s0 ?c)" using classify_cases[of e] by (simp add: node_spawn blank_def)
    from 4(2) c0 h bl have c1: "ctx b g (length (nodes s1)) s1"
      and f1: "\<And>a. ?c \<le> a \<Longrightarrow> a < length (nodes s1) \<Longrightarrow> fine b g s1 a"
      by simp_all
    from frame_add[OF 4(1)] have "length (nodes ?s0) \<le> length (nodes s1)"
      by (simp add: frame_def)
    then have l1: "Suc ?c \<le> length (nodes s1)" by simp
    with 4(4) c1 h have c2: "ctx b g (length (nodes s')) s'"
      and f2: "\<And>a. length (nodes s1) \<le> a \<Longrightarrow> a < length (nodes s') \<Longrightarrow> fine b g s' a"
      by simp_all
    note fr = frame_walk_entries[OF 4(3)]
    from c1 have g: "g < length (tables s1)" by (simp add: ctx_def rooted_def)
    have "fine b g s' a" if a: "?c \<le> a" "a < length (nodes s')" for a
    proof (cases "a < length (nodes s1)")
      case True
      from a h have "a \<noteq> n" by simp
      from fine_frame[OF fr g True this f1[OF a(1) True]] show ?thesis .
    next
      case False
      with f2[of a] a show ?thesis by simp
    qed
    with c2 show "ctx b g (length (nodes s')) s' \<and>
         (\<forall>a. ?c \<le> a \<and> a < length (nodes s') \<longrightarrow> fine b g s' a)"
      by simp
  qed
next
  case (5 k s n c s1 s')
  let ?s0 = "attach n c s"
  show ?case
  proof (intro allI impI)
    fix b g assume h: "ctx b g c s \<and> b \<le> n \<and> n < c \<and> Suc c = length (nodes s) \<and> blank (node s c)"
    then have hc: "ctx b g c s" and n: "b \<le> n" "n < c" and cl: "c < length (nodes s)"
      and l0: "length (nodes ?s0) = Suc c"
      by simp_all
    have c0: "ctx b g (Suc c) ?s0" by (rule ctx_attach[OF hc n cl])
    from 5(3) c0 n l0 have c1: "ctx b g (length (nodes s1)) s1"
      and f1: "\<And>a. Suc c \<le> a \<Longrightarrow> a < length (nodes s1) \<Longrightarrow> fine b g s1 a"
      by simp_all
    note fr = frame_walk[OF 5(2)]
    from frame_length[OF fr] l0 have l1: "c < length (nodes s1)" by simp
    from frame_core[OF fr, of c] l0 have sc: "same_core (node ?s0 c) (node s1 c)" by simp
    from cl have at: "parent (node ?s0 c) = Some n" "Type (node ?s0 c) = Type (node s c)"
      "Checksum (node ?s0 c) = Checksum (node s c)"
      by (simp_all add: node_attach)
    from sc at have p1: "parent (node s1 c) = Some n" by (simp add: same_core_def)
    from sc at h 5(1) have t1: "typed (node s1 c)" by (simp add: same_core_def typed_def blank_def)
    from enroll_ctx[OF 5(4) c1 n l1 p1] enroll_length[OF 5(4)]
    have c2: "ctx b g (length (nodes s')) s'" by simp
    from enroll_fine[OF 5(4) c1 n l1 p1 t1] have fc: "fine b g s' c" .
    have fe: "frame (length (nodes s1)) n s1 s'" by (rule frame_enroll[OF 5(4)]) simp
    from c1 have g: "g < length (tables s1)" by (simp add: ctx_def rooted_def)
    have "fine b g s' a" if a: "c \<le> a" "a < length (nodes s')" for a
    proof (cases "a = c")
      case True
      with fc show ?thesis by simp
    next
      case False
      with a have a1: "Suc c \<le> a" by simp
      from a enroll_length[OF 5(4)] have a2: "a < length (nodes s1)" by simp
      from a1 n have "a \<noteq> n" by simp
      from fine_frame[OF fe g a2 this f1[OF a1 a2]] show ?thesis .
    qed
    with c2 show "ctx b g (length (nodes s')) s' \<and> (\<forall>a. c \<le> a \<and> a < length (nodes s') \<longrightarrow> fine b g s' a)"
      by simp
  qed
next
  case (6 s n c s1 s')
  let ?s0 = "attach n c s"
  show ?case
  proof (intro allI impI)
    fix b g assume h: "ctx b g c s \<and> b \<le> n \<and> n < c \<and> Suc c = length (nodes s) \<and> blank (node s c)"
    then have hc: "ctx b g c s" and n: "b \<le> n" "n < c" and cl: "c < length (nodes s)"
      and l0: "length (nodes ?s0) = Suc c"
      by simp_all
    have c0: "ctx b g (Suc c) ?s0" by (rule ctx_attach[OF hc n cl])
    from digest_node[OF 6(2)] l0 cl obtain hx where l1: "length (nodes s1) = Suc c"
      and nd: "node s1 c = set_Checksum (Some hx) (node ?s0 c)"
      by auto
    from ctx_digest[OF c0 6(2)] l1 have c1: "ctx b g (length (nodes s1)) s1" by simp
    from cl have at: "parent (node ?s0 c) = Some n" "Type (node ?s0 c) = Type (node s c)"
      by (simp_all add: node_attach)
    from nd at have p1: "parent (node s1 c) = Some n" by simp
    from nd at 6(1) have t1: "typed (node s1 c)" by (simp add: typed_def)
    from l1 have lc: "c < length (nodes s1)" by simp
    from enroll_ctx[OF 6(3) c1 n lc p1] enroll_length[OF 6(3)]
    have c2: "ctx b g (length (nodes s')) s'" by simp
    from enroll_fine[OF 6(3) c1 n lc p1 t1] have fc: "fine b g s' c" .
    have "fine b g s' a" if a: "c \<le> a" "a < length (nodes s')" for a
    proof -
      from a enroll_length[OF 6(3)] l1 have "a = c" by simp
      with fc show ?thesis by simp
    qed
    with c2 show "ctx b g (length (nodes s')) s' \<and> (\<forall>a. c \<le> a \<and> a < length (nodes s') \<longrightarrow> fine b g s' a)"
      by simp
  qed
next
  case (7 s n c s')
  let ?s0 = "attach n c s"
  show ?case
  proof (intro allI impI)
    fix b g assume h: "ctx b g c s \<and> b \<le> n \<and> n < c \<and> Suc c = length (nodes s) \<and> blank (node s c)"
    then have hc: "ctx b g c s" and n: "b \<le> n" "n < c" and cl: "c < length (nodes s)"
      and l0: "length (nodes ?s0) = Suc c"
      by simp_all
    have c0: "ctx b g (Suc c) ?s0" by (rule ctx_attach[OF hc n cl])
    from c0 l0 have c1: "ctx b g (length (nodes ?s0)) ?s0" by simp
    from cl have at: "parent (node ?s0 c) = Some n" "Type (node ?s0 c) = Type (node s c)"
      "Checksum (node ?s0 c) = Checksum (node s c)"
      by (simp_all add: node_attach)
    from at h 7(1,2) have t1: "typed (node ?s0 c)" by (auto simp: typed_def blank_def)
    from l0 have lc: "c < length (nodes ?s0)" by simp
    from enroll_ctx[OF 7(3) c1 n lc at(1)] enroll_length[OF 7(3)]
    have c2: "ctx b g (length (nodes s')) s'" by simp
    from enroll_fine[OF 7(3) c1 n lc at(1) t1] have fc: "fine b g s' c" .
    have "fine b g s' a" if a: "c \<le> a" "a < length (nodes s')" for a
    proof -
      from a enroll_length[OF 7(3)] l0 have "a = c" by simp
      with fc show ?thesis by simp
    qed
    with c2 show "ctx b g (length (nodes s')) s' \<and> (\<forall>a. c \<le> a \<and> a < length (nodes s') \<longrightarrow> fine b g s' a)"
      by simp
  qed
qed

section \<open>Digests computed, and the copies a node holds\<close>

text \<open>
  \<open>opens\<close> counts the files that \<^verbatim>\<open>checksum.SHA256\<close> has opened, \<open>files\<close> the file nodes
  in a range of addresses. \<open>copies\<close> says of a list of node values that each is the value
  of a node of the heap in a range of addresses.
\<close>

definition hashed :: "call \<Rightarrow> bool" where
  "hashed c = (case c of Call_Open p e \<Rightarrow> True | _ \<Rightarrow> False)"

definition opens :: "call list \<Rightarrow> nat" where
  "opens tr = length (filter hashed tr)"

definition files :: "'w state \<Rightarrow> nat \<Rightarrow> nat \<Rightarrow> nat" where
  "files s lo hi = length (filter (\<lambda>a. Type (node s a) = File) [lo..<hi])"

lemma hashed_simps [simp]:
  "hashed (Call_Open p e)" "\<not> hashed (Call_Stat p e)" "\<not> hashed (Call_ReadDir p e)"
  "\<not> hashed (Call_Abs p e)" "\<not> hashed (Call_Printf p x)" "\<not> hashed (Call_ReadFile p e)"
  "\<not> hashed (Call_MkdirAll p m e)" "\<not> hashed (Call_WriteFile p d m e)" "\<not> hashed (Call_RemoveAll p e)"
  by (simp_all add: hashed_def)

lemma opens_simps [simp]:
  "opens [] = 0" "opens (c # tr) = (if hashed c then Suc (opens tr) else opens tr)"
  "opens (tr @ tr') = opens tr + opens tr'"
  by (simp_all add: opens_def)

lemma files_split: "lo \<le> mid \<Longrightarrow> mid \<le> hi \<Longrightarrow> files s lo hi = files s lo mid + files s mid hi"
proof -
  assume "lo \<le> mid" "mid \<le> hi"
  then have "[lo..<hi] = [lo..<mid] @ [mid..<hi]"
    by (metis le_Suc_ex upt_add_eq_append)
  then show ?thesis by (simp add: files_def)
qed

lemma files_same:
  "(\<And>a. lo \<le> a \<Longrightarrow> a < hi \<Longrightarrow> Type (node s' a) = Type (node s a)) \<Longrightarrow> files s' lo hi = files s lo hi"
  unfolding files_def by (rule arg_cong[of _ _ length], rule filter_cong) auto

lemma files_empty [simp]: "files s lo lo = 0"
  by (simp add: files_def)

lemma files_one: "files s c (Suc c) = (if Type (node s c) = File then 1 else 0)"
  by (simp add: files_def)

lemma files_frame:
  "frame m n s s' \<Longrightarrow> hi \<le> m \<Longrightarrow> files s' lo hi = files s lo hi"
proof (rule files_same)
  fix a assume f: "frame m n s s'" and "hi \<le> m" "a < hi"
  then have "a < m" by simp
  from frame_core[OF f this] show "Type (node s' a) = Type (node s a)" by (simp add: same_core_def)
qed

lemma enroll_trace: "enroll n c s = Done s' \<Longrightarrow> trace s' = trace s"
  by (auto simp: enroll_Done)

lemma digest_trace:
  "digest os s c = Done s' \<Longrightarrow> opens (trace s') = Suc (opens (trace s))"
  by (auto simp: digest_Done)

lemma build_opens:
  "(\<forall>k s n s'. walk k os s n = Done s' \<longrightarrow>
      opens (trace s') = opens (trace s) + files s' (length (nodes s)) (length (nodes s'))) \<and>
   (\<forall>k s n es s'. walk_entries k os s n es = Done s' \<longrightarrow>
      opens (trace s') = opens (trace s) + files s' (length (nodes s)) (length (nodes s'))) \<and>
   (\<forall>k s n c s'. add k os s n c = Done s' \<longrightarrow> Suc c = length (nodes s) \<longrightarrow>
      opens (trace s') = opens (trace s) + files s' c (length (nodes s')))"
proof (rule build_induct, goal_cases)
  case (1 s n e)
  show ?case by simp
next
  case (2 k s n es s')
  then show ?case by simp
next
  case (3 s n)
  show ?case by simp
next
  case (4 k s n e es s1 s')
  let ?c = "length (nodes s)"
  from 4(2) have a: "opens (trace s1) = opens (trace s) + files s1 ?c (length (nodes s1))" by simp
  note fa = frame_add[OF 4(1)]
  from frame_length[OF fa] have l1: "?c \<le> length (nodes s1)" by simp
  note fr = frame_walk_entries[OF 4(3)]
  from frame_length[OF fr] have l2: "length (nodes s1) \<le> length (nodes s')" .
  from files_frame[OF fr, of "length (nodes s1)" ?c]
  have "files s' ?c (length (nodes s1)) = files s1 ?c (length (nodes s1))" by simp
  with a 4(4) files_split[OF l1 l2, of s'] show ?case by simp
next
  case (5 k s n c s1 s')
  show ?case
  proof
    assume sc: "Suc c = length (nodes s)"
    then have l0: "length (nodes (attach n c s)) = Suc c" by simp
    note fr = frame_walk[OF 5(2)]
    from frame_length[OF fr] l0 have l1: "Suc c \<le> length (nodes s1)" by simp
    from 5(3) l0 have a: "opens (trace s1) = opens (trace s) + files s1 (Suc c) (length (nodes s1))"
      by simp
    have fe: "frame (length (nodes s1)) n s1 s'" by (rule frame_enroll[OF 5(4)]) simp
    from frame_core[OF fr, of c] l0 5(1) have "Type (node s1 c) = Directory"
      by (simp add: same_core_def)
    with frame_core[OF fe, of c] l1 have "Type (node s' c) = Directory"
      by (simp add: same_core_def)
    then have one: "files s' c (Suc c) = 0" by (simp add: files_one)
    from files_frame[OF fe, of "length (nodes s1)" "Suc c"]
    have "files s' (Suc c) (length (nodes s1)) = files s1 (Suc c) (length (nodes s1))" by simp
    with a one enroll_trace[OF 5(4)] enroll_length[OF 5(4)] files_split[of c "Suc c" "length (nodes s1)" s'] l1
    show "opens (trace s') = opens (trace s) + files s' c (length (nodes s'))" by simp
  qed
next
  case (6 s n c s1 s')
  show ?case
  proof
    assume sc: "Suc c = length (nodes s)"
    then have l0: "length (nodes (attach n c s)) = Suc c" by simp
    from digest_node[OF 6(2)] l0 sc obtain h where l1: "length (nodes s1) = Suc c"
      and nd: "node s1 c = set_Checksum (Some h) (node (attach n c s) c)"
      by auto
    have fe: "frame (length (nodes s1)) n s1 s'" by (rule frame_enroll[OF 6(3)]) simp
    from nd 6(1) have "Type (node s1 c) = File" by simp
    with frame_core[OF fe, of c] l1 have "Type (node s' c) = File"
      by (simp add: same_core_def)
    then have one: "files s' c (Suc c) = 1" by (simp add: files_one)
    from digest_trace[OF 6(2)] have "opens (trace s1) = Suc (opens (trace s))" by simp
    with one enroll_trace[OF 6(3)] enroll_length[OF 6(3)] l1
    show "opens (trace s') = opens (trace s) + files s' c (length (nodes s'))" by simp
  qed
next
  case (7 s n c s')
  show ?case
  proof
    assume sc: "Suc c = length (nodes s)"
    then have l0: "length (nodes (attach n c s)) = Suc c" by simp
    have fe: "frame (length (nodes (attach n c s))) n (attach n c s) s'"
      by (rule frame_enroll[OF 7(3)]) simp
    from frame_core[OF fe, of c] l0 7(2) have "Type (node s' c) \<noteq> File"
      by (simp add: same_core_def)
    then have one: "files s' c (Suc c) = 0" by (simp add: files_one)
    with enroll_trace[OF 7(3)] enroll_length[OF 7(3)] l0
    show "opens (trace s') = opens (trace s) + files s' c (length (nodes s'))" by simp
  qed
qed


definition copies :: "'w state \<Rightarrow> nat \<Rightarrow> nat \<Rightarrow> Node list \<Rightarrow> bool" where
  "copies s lo hi xs \<longleftrightarrow> (\<forall>x. x \<in> set xs \<longrightarrow> (\<exists>c. lo \<le> c \<and> c < hi \<and> x = node s c))"

lemma copies_Nil [simp]: "copies s lo hi []"
  by (simp add: copies_def)

lemma copies_append: "copies s lo hi (xs @ ys) \<longleftrightarrow> copies s lo hi xs \<and> copies s lo hi ys"
  by (auto simp: copies_def)

lemma copies_wider: "copies s lo hi xs \<Longrightarrow> lo' \<le> lo \<Longrightarrow> hi \<le> hi' \<Longrightarrow> copies s lo' hi' xs"
  unfolding copies_def by (meson le_trans less_le_trans)

lemma copies_frame:
  assumes c: "copies s lo hi xs" and f: "frame m n s s'" and h: "hi \<le> m" "n < lo"
  shows "copies s' lo hi xs"
  unfolding copies_def
proof (intro allI impI)
  fix x assume "x \<in> set xs"
  with c obtain a where a: "lo \<le> a" "a < hi" "x = node s a" by (auto simp: copies_def)
  with h have "a < m" "a \<noteq> n" by simp_all
  from frame_node[OF f this] a show "\<exists>c. lo \<le> c \<and> c < hi \<and> x = node s' c" by auto
qed

lemma enroll_node:
  "enroll n c s = Done s' \<Longrightarrow>
   node s' a = (if a = n \<and> n < length (nodes s)
                then set_Nodes (Nodes (node s n) @ [node s c]) (node s n) else node s a)"
  by (auto simp: enroll_Done node_upd_node)

definition grown :: "nat \<Rightarrow> addr \<Rightarrow> 'w state \<Rightarrow> 'w state \<Rightarrow> bool" where
  "grown lo n s s' \<longleftrightarrow>
     (\<exists>ys. Nodes (node s' n) = Nodes (node s n) @ ys \<and> copies s' lo (length (nodes s')) ys) \<and>
     (\<forall>a. lo \<le> a \<and> a < length (nodes s') \<longrightarrow>
        copies s' (Suc a) (length (nodes s')) (Nodes (node s' a)))"

lemma grown_tail:
  assumes e: "enroll n c s1 = Done s'" and n: "n < c" "c < length (nodes s1)"
    and nn: "Nodes (node s1 n) = xs"
    and kc: "copies s1 (Suc c) (length (nodes s1)) (Nodes (node s1 c))"
    and ka: "\<And>a. Suc c \<le> a \<Longrightarrow> a < length (nodes s1) \<Longrightarrow>
               copies s1 (Suc a) (length (nodes s1)) (Nodes (node s1 a))"
  shows "(\<exists>ys. Nodes (node s' n) = xs @ ys \<and> copies s' c (length (nodes s')) ys) \<and>
     (\<forall>a. c \<le> a \<and> a < length (nodes s') \<longrightarrow>
        copies s' (Suc a) (length (nodes s')) (Nodes (node s' a)))"
proof -
  have fe: "frame (length (nodes s1)) n s1 s'" by (rule frame_enroll[OF e]) simp
  note len = enroll_length[OF e]
  from n have nl: "n < length (nodes s1)" by simp
  from n have same: "node s' a = node s1 a" if "c \<le> a" for a
    using that by (simp add: enroll_node[OF e])
  from nl nn have "Nodes (node s' n) = xs @ [node s1 c]"
    by (simp add: enroll_node[OF e])
  with same[of c] have "Nodes (node s' n) = xs @ [node s' c]" by simp
  moreover have "copies s' c (length (nodes s')) [node s' c]"
    using n len by (auto simp: copies_def)
  ultimately have a: "\<exists>ys. Nodes (node s' n) = xs @ ys \<and> copies s' c (length (nodes s')) ys"
    by blast
  have b: "copies s' (Suc a) (length (nodes s')) (Nodes (node s' a))"
    if a: "c \<le> a" "a < length (nodes s')" for a
  proof -
    have "copies s1 (Suc a) (length (nodes s1)) (Nodes (node s1 a))"
    proof (cases "a = c")
      case True
      with kc show ?thesis by simp
    next
      case False
      with a len ka[of a] show ?thesis by simp
    qed
    from copies_frame[OF this fe] n a have "copies s' (Suc a) (length (nodes s1)) (Nodes (node s1 a))"
      by simp
    with same[OF a(1)] len show ?thesis by simp
  qed
  from a b show ?thesis by simp
qed

lemma build_grown:
  "(\<forall>k s n s'. walk k os s n = Done s' \<longrightarrow> n < length (nodes s) \<longrightarrow>
      grown (length (nodes s)) n s s') \<and>
   (\<forall>k s n es s'. walk_entries k os s n es = Done s' \<longrightarrow> n < length (nodes s) \<longrightarrow>
      grown (length (nodes s)) n s s') \<and>
   (\<forall>k s n c s'. add k os s n c = Done s' \<longrightarrow>
      n < c \<and> Suc c = length (nodes s) \<and> Nodes (node s c) = [] \<longrightarrow> grown c n s s')"
proof (rule build_induct, goal_cases)
  case (1 s n e)
  show ?case by (auto simp: grown_def)
next
  case (2 k s n es s')
  then show ?case by (simp add: grown_def)
next
  case (3 s n)
  show ?case by (auto simp: grown_def)
next
  case (4 k s n e es s1 s')
  let ?c = "length (nodes s)"
  show ?case
  proof
    assume n: "n < ?c"
    have "Nodes (node (spawn os n e s) ?c) = []" by (simp add: node_spawn)
    with 4(2) n have g1: "grown ?c n (spawn os n e s) s1" by simp
    note fa = frame_add[OF 4(1)]
    from frame_length[OF fa] have l1: "Suc ?c \<le> length (nodes s1)" by simp
    with 4(4) n have g2: "grown (length (nodes s1)) n s1 s'" by simp
    note fr = frame_walk_entries[OF 4(3)]
    from frame_length[OF fr] have l2: "length (nodes s1) \<le> length (nodes s')" .
    from g1 n obtain ys1 where y1: "Nodes (node s1 n) = Nodes (node s n) @ ys1"
      "copies s1 ?c (length (nodes s1)) ys1"
      by (auto simp: grown_def node_spawn)
    from g2 obtain ys2 where y2: "Nodes (node s' n) = Nodes (node s1 n) @ ys2"
      "copies s' (length (nodes s1)) (length (nodes s')) ys2"
      by (auto simp: grown_def)
    from copies_frame[OF y1(2) fr] n have "copies s' ?c (length (nodes s1)) ys1" by simp
    with l2 have "copies s' ?c (length (nodes s')) ys1" by (auto intro: copies_wider)
    moreover from y2(2) l1 have "copies s' ?c (length (nodes s')) ys2" by (auto intro: copies_wider)
    ultimately have a: "\<exists>ys. Nodes (node s' n) = Nodes (node s n) @ ys \<and> copies s' ?c (length (nodes s')) ys"
      using y1(1) y2(1) by (intro exI[of _ "ys1 @ ys2"]) (simp add: copies_append)
    have b: "copies s' (Suc a) (length (nodes s')) (Nodes (node s' a))"
      if a: "?c \<le> a" "a < length (nodes s')" for a
    proof (cases "a < length (nodes s1)")
      case True
      with g1 a have "copies s1 (Suc a) (length (nodes s1)) (Nodes (node s1 a))"
        by (simp add: grown_def)
      from copies_frame[OF this fr] n a have "copies s' (Suc a) (length (nodes s1)) (Nodes (node s1 a))"
        by simp
      moreover from frame_node[OF fr True] n a have "node s' a = node s1 a" by simp
      ultimately show ?thesis using l2 by (auto intro: copies_wider)
    next
      case False
      with g2 a show ?thesis by (simp add: grown_def)
    qed
    from a b show "grown ?c n s s'" by (simp add: grown_def)
  qed
next
  case (5 k s n c s1 s')
  let ?s0 = "attach n c s"
  show ?case
  proof
    assume h: "n < c \<and> Suc c = length (nodes s) \<and> Nodes (node s c) = []"
    then have n: "n < c" and cl: "c < length (nodes s)" and l0: "length (nodes ?s0) = Suc c"
      and e0: "Nodes (node ?s0 c) = []" "Nodes (node ?s0 n) = Nodes (node s n)"
      by (simp_all add: node_attach)
    from 5(3) l0 have g1: "grown (Suc c) c ?s0 s1" by simp
    note fr = frame_walk[OF 5(2)]
    from frame_length[OF fr] l0 have l1: "c < length (nodes s1)" by simp
    from frame_node[OF fr, of n] n l0 e0 have nn: "Nodes (node s1 n) = Nodes (node s n)" by simp
    from g1 e0 have kc: "copies s1 (Suc c) (length (nodes s1)) (Nodes (node s1 c))"
      by (auto simp: grown_def)
    from g1 have ka: "\<And>a. Suc c \<le> a \<Longrightarrow> a < length (nodes s1) \<Longrightarrow>
               copies s1 (Suc a) (length (nodes s1)) (Nodes (node s1 a))"
      by (simp add: grown_def)
    from grown_tail[OF 5(4) n l1 nn kc ka] show "grown c n s s'" by (simp add: grown_def)
  qed
next
  case (6 s n c s1 s')
  let ?s0 = "attach n c s"
  show ?case
  proof
    assume h: "n < c \<and> Suc c = length (nodes s) \<and> Nodes (node s c) = []"
    then have n: "n < c" and cl: "c < length (nodes s)" and l0: "length (nodes ?s0) = Suc c"
      and e0: "Nodes (node ?s0 c) = []" "Nodes (node ?s0 n) = Nodes (node s n)"
      by (simp_all add: node_attach)
    from 6(2) have nds: "Nodes (node s1 a) = Nodes (node ?s0 a)" for a
      by (auto simp: digest_Done node_upd_node)
    from digest_node[OF 6(2)] l0 have l1: "length (nodes s1) = Suc c" by simp
    then have lc: "c < length (nodes s1)" by simp
    from nds e0 have nn: "Nodes (node s1 n) = Nodes (node s n)" by simp
    from nds e0 have kc: "copies s1 (Suc c) (length (nodes s1)) (Nodes (node s1 c))" by simp
    have ka: "\<And>a. Suc c \<le> a \<Longrightarrow> a < length (nodes s1) \<Longrightarrow>
               copies s1 (Suc a) (length (nodes s1)) (Nodes (node s1 a))"
      using l1 by simp
    from grown_tail[OF 6(3) n lc nn kc ka] show "grown c n s s'" by (simp add: grown_def)
  qed
next
  case (7 s n c s')
  let ?s0 = "attach n c s"
  show ?case
  proof
    assume h: "n < c \<and> Suc c = length (nodes s) \<and> Nodes (node s c) = []"
    then have n: "n < c" and cl: "c < length (nodes s)" and l0: "length (nodes ?s0) = Suc c"
      and e0: "Nodes (node ?s0 c) = []" "Nodes (node ?s0 n) = Nodes (node s n)"
      by (simp_all add: node_attach)
    from l0 have lc: "c < length (nodes ?s0)" by simp
    from e0 have kc: "copies ?s0 (Suc c) (length (nodes ?s0)) (Nodes (node ?s0 c))" by simp
    have ka: "\<And>a. Suc c \<le> a \<Longrightarrow> a < length (nodes ?s0) \<Longrightarrow>
               copies ?s0 (Suc a) (length (nodes ?s0)) (Nodes (node ?s0 a))"
      using l0 by simp
    from grown_tail[OF 7(3) n lc e0(2) kc ka] show "grown c n s s'" by (simp add: grown_def)
  qed
qed

section \<open>What holds of a tree that \<^verbatim>\<open>New\<close> returns\<close>

text \<open>
  \<^verbatim>\<open>New\<close> allocates the root at the end of the heap and its map at the end of the heap of
  maps; the nodes of the tree are the addresses from the root's to the end of the heap.
\<close>

lemma walk_fine:
  assumes "walk k os s n = Done s'" "ctx b g (length (nodes s)) s" "b \<le> n" "n < length (nodes s)"
  shows "ctx b g (length (nodes s')) s'"
    and "\<And>a. length (nodes s) \<le> a \<Longrightarrow> a < length (nodes s') \<Longrightarrow> fine b g s' a"
  using build_fine[of os] assms by simp_all

lemma New_Done:
  assumes "New k os s0 path = Done (s, r)"
  obtains info where "os_stat os (world s0) path = Inr info" "IsDir (fi_mode info)"
    "r = length (nodes s0)"
    "walk k os ((alloc (Node None (Some (length (tables s0))) 0 None path (fp_dir os (fi_name info))
        (fi_name info) Directory None []) (emit (Call_Stat path None) s0))\<lparr>tables := tables s0 @ [[]]\<rparr>) r = Done s"
  using assms
  by (auto simp: New_def Let_def split: sum.splits if_splits outcome.splits)

definition seed :: "'w os \<Rightarrow> string \<Rightarrow> file_info \<Rightarrow> 'w state \<Rightarrow> 'w state" where
  "seed os path info s0 =
     (alloc (Node None (Some (length (tables s0))) 0 None path (fp_dir os (fi_name info))
        (fi_name info) Directory None []) (emit (Call_Stat path None) s0))\<lparr>tables := tables s0 @ [[]]\<rparr>"

lemma seed_simps [simp]:
  "length (nodes (seed os path info s0)) = Suc (length (nodes s0))"
  "tables (seed os path info s0) = tables s0 @ [[]]"
  "world (seed os path info s0) = world s0"
  "trace (seed os path info s0) = trace s0 @ [Call_Stat path None]"
  by (simp_all add: seed_def alloc_def)

lemma node_seed:
  "node (seed os path info s0) a =
     (if a = length (nodes s0)
      then Node None (Some (length (tables s0))) 0 None path (fp_dir os (fi_name info)) (fi_name info) Directory None []
      else if a < length (nodes s0) then node s0 a else node (seed os path info s0) a)"
  by (auto simp: seed_def alloc_def node_def nth_append)

lemma ctx_seed:
  "ctx (length (nodes s0)) (length (tables s0)) (Suc (length (nodes s0))) (seed os path info s0)"
  by (auto simp: ctx_def rooted_def chain_def global_ok_def local_ok_def own_tables_def node_seed)

lemma New_tree:
  assumes n: "New k os s0 path = Done (s, r)"
  shows "r = length (nodes s0)"
    and "ctx r (length (tables s0)) (length (nodes s)) s"
    and "\<And>a. r < a \<Longrightarrow> a < length (nodes s) \<Longrightarrow> fine r (length (tables s0)) s a"
    and "parent (node s r) = None \<and> depth (node s r) = 0 \<and> Path (node s r) = path \<and>
         Type (node s r) = Directory \<and> Checksum (node s r) = None \<and>
         table (node s r) = Some (length (tables s0))"
    and "world s = world s0"
proof -
  from n obtain info where r: "r = length (nodes s0)"
    and w: "walk k os (seed os path info s0) r = Done s"
    by (rule New_Done) (simp add: seed_def)
  let ?s1 = "seed os path info s0"
  show "r = length (nodes s0)" by (rule r)
  have c: "ctx r (length (tables s0)) (length (nodes ?s1)) ?s1"
    using ctx_seed[of s0 os path info] r by simp
  have l: "r < length (nodes ?s1)" using r by simp
  from walk_fine(1)[OF w c _ l] show "ctx r (length (tables s0)) (length (nodes s)) s" by simp
  fix a assume "r < a" "a < length (nodes s)"
  with walk_fine(2)[OF w c _ l, of a] r show "fine r (length (tables s0)) s a" by simp
next
  from n obtain info where r: "r = length (nodes s0)"
    and w: "walk k os (seed os path info s0) r = Done s"
    by (rule New_Done) (simp add: seed_def)
  from frame_core[OF frame_walk[OF w], of r] r
  show "parent (node s r) = None \<and> depth (node s r) = 0 \<and> Path (node s r) = path \<and>
         Type (node s r) = Directory \<and> Checksum (node s r) = None \<and>
         table (node s r) = Some (length (tables s0))"
    by (simp add: node_seed same_core_def)
  from frame_world[OF frame_walk[OF w]] show "world s = world s0" by simp
qed


lemma New_Root:
  assumes n: "New k os s0 path = Done (s, r)" and a: "r \<le> a" "a < length (nodes s)"
  shows "Root s a = Some r"
  using ctx_Root[OF New_tree(2)[OF n] a] .

lemma New_seed:
  assumes "New k os s0 path = Done (s, r)"
  shows "\<exists>info. r = length (nodes s0) \<and> walk k os (seed os path info s0) r = Done s"
  using assms by (rule New_Done) (auto simp: seed_def)

lemma grown_walk: "walk k os s n = Done s' \<Longrightarrow> n < length (nodes s) \<Longrightarrow> grown (length (nodes s)) n s s'"
  using build_grown[of os] by simp

lemma opens_walk:
  "walk k os s n = Done s' \<Longrightarrow>
   opens (trace s') = opens (trace s) + files s' (length (nodes s)) (length (nodes s'))"
  using build_opens[of os] by simp

lemma New_copies:
  assumes n: "New k os s0 path = Done (s, r)" and a: "r \<le> a" "a < length (nodes s)"
  shows "copies s (Suc a) (length (nodes s)) (Nodes (node s a))"
proof -
  from New_seed[OF n] obtain info where r: "r = length (nodes s0)"
    and w: "walk k os (seed os path info s0) r = Done s" by blast
  from grown_walk[OF w] r have g: "grown (Suc r) r (seed os path info s0) s" by simp
  show ?thesis
  proof (cases "a = r")
    case True
    from g r have "copies s (Suc r) (length (nodes s)) (Nodes (node s r))"
      by (auto simp: grown_def node_seed)
    with True show ?thesis by simp
  next
    case False
    with a g show ?thesis by (simp add: grown_def)
  qed
qed

lemma New_opens:
  assumes n: "New k os s0 path = Done (s, r)"
  shows "opens (trace s) = opens (trace s0) + files s r (length (nodes s))"
proof -
  from New_seed[OF n] obtain info where r: "r = length (nodes s0)"
    and w: "walk k os (seed os path info s0) r = Done s" by blast
  from opens_walk[OF w] r
  have o: "opens (trace s) = opens (trace s0) + files s (Suc r) (length (nodes s))" by simp
  from frame_length[OF frame_walk[OF w]] r have l: "Suc r \<le> length (nodes s)" by simp
  from New_tree(4)[OF n] have "files s r (Suc r) = 0" by (simp add: files_one)
  with o files_split[of r "Suc r" "length (nodes s)" s] l show ?thesis by simp
qed

text \<open>A property of a node value and of all the copies nested in it.\<close>

fun every :: "(Node \<Rightarrow> bool) \<Rightarrow> Node \<Rightarrow> bool" where
  "every P (Node pa ta de co pt dn nm ty cs ns) =
     (P (Node pa ta de co pt dn nm ty cs ns) \<and> (\<forall>x \<in> set ns. every P x))"

lemma every_iff: "every P x \<longleftrightarrow> P x \<and> (\<forall>y \<in> set (Nodes x). every P y)"
  by (cases x) simp

lemma every_live:
  assumes p: "\<And>a. lo \<le> a \<Longrightarrow> a < hi \<Longrightarrow> P (node s a)"
    and c: "\<And>a. lo \<le> a \<Longrightarrow> a < hi \<Longrightarrow> copies s (Suc a) hi (Nodes (node s a))"
  shows "lo \<le> a \<Longrightarrow> a < hi \<Longrightarrow> x = node s a \<Longrightarrow> every P x"
proof (induction x arbitrary: a)
  case (Node pa ta de co pt dn nm ty cs ns)
  have "every P y" if y: "y \<in> set ns" for y
  proof -
    from Node.prems have "Nodes (node s a) = ns" by (metis Node.sel(10))
    with c[OF Node.prems(1,2)] y obtain b where "Suc a \<le> b" "b < hi" "y = node s b"
      by (auto simp: copies_def)
    with Node.IH[OF y, of b] Node.prems(1) show ?thesis by simp
  qed
  moreover from p[OF Node.prems(1,2)] Node.prems(3) have "P (Node pa ta de co pt dn nm ty cs ns)"
    by simp
  ultimately show ?case by simp
qed


section \<open>Registration comes last\<close>

text \<open>
  \<open>fresh_entries m s s'\<close>: whatever a map of \<open>s'\<close> holds that it did not hold in \<open>s\<close>
  is an address from \<open>m\<close> on.
\<close>

definition fresh_entries :: "nat \<Rightarrow> 'w state \<Rightarrow> 'w state \<Rightarrow> bool" where
  "fresh_entries m s s' \<longleftrightarrow>
     (\<forall>t key v. t < length (tables s') \<and> (key, v) \<in> set (tables s' ! t) \<longrightarrow>
        (t < length (tables s) \<and> (key, v) \<in> set (tables s ! t)) \<or> m \<le> v)"

lemma fresh_refl: "fresh_entries m s s"
  by (simp add: fresh_entries_def)

lemma fresh_same: "tables s' = tables s \<Longrightarrow> fresh_entries m s s'"
  by (simp add: fresh_entries_def)

lemma fresh_trans:
  assumes a: "fresh_entries m s s1" and b: "fresh_entries m' s1 s2" and le: "m \<le> m'"
  shows "fresh_entries m s s2"
  unfolding fresh_entries_def
proof (intro allI impI)
  fix t key v assume h: "t < length (tables s2) \<and> (key, v) \<in> set (tables s2 ! t)"
  with b have "(t < length (tables s1) \<and> (key, v) \<in> set (tables s1 ! t)) \<or> m' \<le> v"
    unfolding fresh_entries_def by blast
  then show "(t < length (tables s) \<and> (key, v) \<in> set (tables s ! t)) \<or> m \<le> v"
  proof
    assume "t < length (tables s1) \<and> (key, v) \<in> set (tables s1 ! t)"
    with a show ?thesis unfolding fresh_entries_def by blast
  next
    assume "m' \<le> v"
    with le show ?thesis by simp
  qed
qed

lemma fresh_attach: "fresh_entries m s (attach n c s)"
  by (auto simp: fresh_entries_def nth_append less_Suc_eq)

lemma fresh_digest: "digest os s c = Done s' \<Longrightarrow> fresh_entries m s s'"
  by (rule fresh_same) (auto simp: digest_Done)

lemma enroll_entries:
  "enroll n c s = Done s' \<Longrightarrow>
   length (tables s') = length (tables s) \<and>
   set (tables s' ! t) \<subseteq> insert (Path (node s c), c) (set (tables s ! t))"
proof -
  assume "enroll n c s = Done s'"
  then obtain g u where s': "s' = upd_node n (\<lambda>p. set_Nodes (Nodes p @ [node s c]) p)
               (put u (Path (node s c)) c (put g (Path (node s c)) c s))"
    by (auto simp: enroll_Done)
  let ?key = "Path (node s c)"
  have "set (tables s' ! t) \<subseteq> insert (?key, c) (set (tables s ! t))"
    using set_ins[of ?key c "tables s ! t"] set_ins[of ?key c "ins ?key c (tables s ! t)"]
    by (auto simp: s' tables_put)
  then show ?thesis by (simp add: s')
qed

lemma fresh_enroll: "enroll n c s = Done s' \<Longrightarrow> fresh_entries c s s'"
  unfolding fresh_entries_def
proof (intro allI impI)
  fix t key v assume e: "enroll n c s = Done s'"
    and h: "t < length (tables s') \<and> (key, v) \<in> set (tables s' ! t)"
  from enroll_entries[OF e, of t] h
  have "t < length (tables s)" "(key, v) = (Path (node s c), c) \<or> (key, v) \<in> set (tables s ! t)"
    by auto
  then show "(t < length (tables s) \<and> (key, v) \<in> set (tables s ! t)) \<or> c \<le> v" by auto
qed

lemma build_fresh:
  "(\<forall>k s n s'. walk k os s n = Done s' \<longrightarrow> fresh_entries (length (nodes s)) s s') \<and>
   (\<forall>k s n es s'. walk_entries k os s n es = Done s' \<longrightarrow> fresh_entries (length (nodes s)) s s') \<and>
   (\<forall>k s n c s'. add k os s n c = Done s' \<longrightarrow> c < length (nodes s) \<longrightarrow> fresh_entries c s s')"
proof (rule build_induct, goal_cases)
  case (1 s n e)
  show ?case by (simp add: fresh_same)
next
  case (2 k s n es s')
  have "fresh_entries (length (nodes s)) s (emit (Call_ReadDir (Path (node s n)) None) s)"
    by (simp add: fresh_same)
  from fresh_trans[OF this] 2(3) show ?case by simp
next
  case (3 s n)
  show ?case by (rule fresh_refl)
next
  case (4 k s n e es s1 s')
  let ?c = "length (nodes s)"
  have a: "fresh_entries ?c s (spawn os n e s)" by (simp add: fresh_same)
  from 4(2) have b: "fresh_entries ?c (spawn os n e s) s1" by simp
  from frame_length[OF frame_add[OF 4(1)]] have "?c \<le> length (nodes s1)" by simp
  from fresh_trans[OF fresh_trans[OF a b] 4(4) this] show ?case by simp
next
  case (5 k s n c s1 s')
  show ?case
  proof
    assume c: "c < length (nodes s)"
    have a: "fresh_entries c s (attach n c s)" by (rule fresh_attach)
    from c have le: "c \<le> length (nodes (attach n c s))" by simp
    from fresh_trans[OF a 5(3) le] have "fresh_entries c s s1" .
    from fresh_trans[OF this fresh_enroll[OF 5(4)]] show "fresh_entries c s s'" by simp
  qed
next
  case (6 s n c s1 s')
  show ?case
  proof
    assume c: "c < length (nodes s)"
    have a: "fresh_entries c s (attach n c s)" by (rule fresh_attach)
    from fresh_trans[OF a fresh_digest[OF 6(2), of c]] have "fresh_entries c s s1" by simp
    from fresh_trans[OF this fresh_enroll[OF 6(3)]] show "fresh_entries c s s'" by simp
  qed
next
  case (7 s n c s')
  show ?case
  proof
    assume c: "c < length (nodes s)"
    have a: "fresh_entries c s (attach n c s)" by (rule fresh_attach)
    from fresh_trans[OF a fresh_enroll[OF 7(3)]] show "fresh_entries c s s'" by simp
  qed
qed

lemma fresh_walk: "walk k os s n = Done s' \<Longrightarrow> fresh_entries (length (nodes s)) s s'"
  using build_fresh[of os] by simp


lemma ctx_table:
  assumes c: "ctx b g m s" and n: "b \<le> n" "n < m"
  shows "\<exists>t. table (node s n) = Some t \<and> t < length (tables s) \<and>
           (\<forall>key v. (key, v) \<in> set (tables s ! t) \<longrightarrow> b < v \<and> v < m)"
proof (cases "n = b")
  case True
  from c have "rooted b g s" "global_ok b g m s" by (simp_all add: ctx_def)
  with True show ?thesis by (auto simp: rooted_def global_ok_def)
next
  case False
  with n have "b < n \<and> n < m" by simp
  moreover from c have "local_ok b g m s" by (simp add: ctx_def)
  ultimately obtain t where t: "table (node s n) = Some t" "t < length (tables s)"
    "\<forall>key v. (key, v) \<in> set (tables s ! t) \<longrightarrow>
       parent (node s v) = Some n \<and> b < v \<and> v < m \<and> Path (node s v) = key"
    unfolding local_ok_def by blast
  then show ?thesis by blast
qed


lemma add_directory:
  assumes a: "add k os s n c = Done s'" and d: "Type (node s c) = Directory"
    and c: "ctx b g c s" and n: "b \<le> n" "n < c" and l: "Suc c = length (nodes s)"
  shows "\<exists>s1 tn. walk k os (attach n c s) c = Done s1 \<and> enroll n c s1 = Done s' \<and>
           table (node s1 n) = Some tn \<and>
           (\<forall>key. (key, c) \<notin> set (tables s1 ! g)) \<and> (\<forall>key. (key, c) \<notin> set (tables s1 ! tn)) \<and>
           Nodes (node s1 n) = Nodes (node s n) \<and>
           length (nodes s') = length (nodes s1) \<and>
           (\<forall>a. c \<le> a \<and> a < length (nodes s1) \<longrightarrow> node s' a = node s1 a) \<and>
           length (tables s') = length (tables s1) \<and>
           (\<forall>t. length (tables s) \<le> t \<and> t < length (tables s1) \<longrightarrow> tables s' ! t = tables s1 ! t) \<and>
           Nodes (node s' n) = Nodes (node s n) @ [node s1 c]"
proof -
  let ?s0 = "attach n c s"
  from l have cl: "c < length (nodes s)" and l0: "length (nodes ?s0) = Suc c" by simp_all
  from d cl have d0: "Type (node ?s0 c) = Directory" by (simp add: node_attach)
  with a obtain s1 where w: "walk k os ?s0 c = Done s1" and e: "enroll n c s1 = Done s'"
    by (cases "walk k os ?s0 c") (simp_all add: add.simps)
  have c0: "ctx b g (length (nodes ?s0)) ?s0" using ctx_attach[OF c n cl] l0 by simp
  from n have bc: "b \<le> c" by simp
  from l0 have cl0: "c < length (nodes ?s0)" by simp
  note c1 = walk_fine(1)[OF w c0 bc cl0]
  note fr = frame_walk[OF w]
  from frame_length[OF fr] l0 have l1: "Suc c \<le> length (nodes s1)" by simp
  from n l0 have nl0: "n < length (nodes ?s0)" "n \<noteq> c" by simp_all
  from frame_node[OF fr nl0] n have n1: "node s1 n = node s n" by (simp add: node_attach)
  from ctx_table[OF c n(1,2)] obtain tn where tn: "table (node s n) = Some tn"
    "tn < length (tables s)" "\<forall>key v. (key, v) \<in> set (tables s ! tn) \<longrightarrow> b < v \<and> v < c"
    by blast
  from c have g: "g < length (tables s)" "table (node s b) = Some g"
    and go: "\<forall>key v. (key, v) \<in> set (tables s ! g) \<longrightarrow> b < v \<and> v < c"
    by (simp_all add: ctx_def rooted_def global_ok_def)
  note fe = fresh_walk[OF w]
  have old: "(key, c) \<notin> set (tables s1 ! t)"
    if t: "t < length (tables s)" "\<forall>key v. (key, v) \<in> set (tables s ! t) \<longrightarrow> b < v \<and> v < c" for t key
  proof
    assume in1: "(key, c) \<in> set (tables s1 ! t)"
    from frame_def[of "length (nodes ?s0)" c ?s0 s1] fr t(1) have "t < length (tables s1)" by simp
    with fe in1 have "(t < length (tables ?s0) \<and> (key, c) \<in> set (tables ?s0 ! t)) \<or>
        length (nodes ?s0) \<le> c"
      unfolding fresh_entries_def by blast
    with t(1) l0 have "(key, c) \<in> set (tables s ! t)" by (simp add: nth_append)
    with t(2) show False by blast
  qed
  from ctx_Root[OF c1 n(1)] n l1 have root: "Root s1 n = Some b" by simp
  from c1 have tb1: "table (node s1 b) = Some g" by (simp add: ctx_def rooted_def)
  note sh = enroll_shape[OF e root tb1]
  from sh(1) n1 tn have oth: "\<And>u. u \<noteq> g \<Longrightarrow> u \<noteq> tn \<Longrightarrow> tables s' ! u = tables s1 ! u"
    by auto
  have "tables s' ! t = tables s1 ! t" if "length (tables s) \<le> t" for t
    using that g(1) tn(2) by (intro oth) simp_all
  moreover from n l1 have "node s' a = node s1 a" if "c \<le> a" for a
    using that by (simp add: enroll_node[OF e])
  moreover from n l1 n1 have "Nodes (node s' n) = Nodes (node s n) @ [node s1 c]"
    by (simp add: enroll_node[OF e])
  ultimately show ?thesis
    using w e n1 tn(1) old[OF g(1) go] old[OF tn(2,3)] sh(3,4)
    by (intro exI[of _ s1] exI[of _ tn]) simp
qed


lemma enroll_world: "enroll n c s = Done s' \<Longrightarrow> world s' = world s"
  by (auto simp: enroll_Done)

section \<open>A tree to run the code on\<close>

text \<open>The tree that \<^verbatim>\<open>New\<close> builds of the directory \<open>r\<close> of the small file system.\<close>

definition built :: "fsys state" where
  "built = (case New 5 fs_os (boot disk) ''r'' of Done (s, r) \<Rightarrow> s | _ \<Rightarrow> boot disk)"

lemma New_built: "New 5 fs_os (boot disk) ''r'' = Done (built, 0)"
  by code_simp

text \<open>
  The same construction stopped where \<^verbatim>\<open>walk\<close> has made the node of the directory \<open>b\<close>
  and is about to call \<^verbatim>\<open>add\<close> (\<open>half\<close>), after the walk of \<open>b\<close> inside that \<^verbatim>\<open>add\<close>
  (\<open>walked\<close>), and after the \<^verbatim>\<open>add\<close> (\<open>whole\<close>).
\<close>

definition half :: "fsys state" where
  "half = spawn fs_os 0 \<lparr>de_name = ''b'', de_type = ModeDir\<rparr>
            (emit (Call_ReadDir ''r'' None)
               (seed fs_os ''r'' \<lparr>fi_name = ''r'', fi_mode = 493 OR ModeDir\<rparr> (boot disk)))"

definition walked :: "fsys state" where
  "walked = (case walk 5 fs_os (attach 0 1 half) 1 of Done s \<Rightarrow> s | _ \<Rightarrow> half)"

definition whole :: "fsys state" where
  "whole = (case add 5 fs_os half 0 1 of Done s \<Rightarrow> s | _ \<Rightarrow> half)"

lemma ctx_half: "ctx 0 0 1 half"
proof -
  have "ctx (length (nodes (boot disk))) (length (tables (boot disk))) (Suc (length (nodes (boot disk))))
      (seed fs_os ''r'' \<lparr>fi_name = ''r'', fi_mode = 493 OR ModeDir\<rparr> (boot disk))"
    by (rule ctx_seed)
  then have "ctx 0 0 1 (seed fs_os ''r'' \<lparr>fi_name = ''r'', fi_mode = 493 OR ModeDir\<rparr> (boot disk))"
    by (simp add: boot_def)
  then show ?thesis unfolding half_def by (intro ctx_spawn ctx_emit)
qed

section \<open>Content accessor: the claims\<close>

text \<open>
  Claim C5. \<^verbatim>\<open>Contents\<close> of the nil node returns the error \<^verbatim>\<open>ExceptionNilNode\<close>; of a node
  whose type is not \<^verbatim>\<open>File\<close>, the error \<^verbatim>\<open>ExceptionInvalidFileNode\<close>. Of a file node that
  has no cached content it reads the whole file (one call for the absolute path, one read)
  and returns its bytes, which are then the node's cache; and a file node that has cached
  content gets these bytes back with the state as it was, the trace included: no call is
  made, whatever the primitives and the world are by then.
\<close>

theorem Contents_cache:
  "Contents os s None = Done (s, None, Some ExceptionNilNode) \<and>
   (Type (node s a) \<noteq> File \<longrightarrow>
      Contents os s (Some a) = Done (s, None, Some ExceptionInvalidFileNode)) \<and>
   (Type (node s a) = File \<and> a < length (nodes s) \<and> content (node s a) = None \<and>
    fp_abs os (world s) (Path (node s a)) = Inr uri \<and> os_read_file os (world s) uri = Inr data \<longrightarrow>
      (\<exists>s1. Contents os s (Some a) = Done (s1, Some data, None) \<and>
            content (node s1 a) = Some data \<and>
            trace s1 = trace s @ [Call_Abs (Path (node s a)) None, Call_ReadFile uri None] \<and>
            (\<forall>os' w'. Contents os' (s1\<lparr>world := w'\<rparr>) (Some a) = Done (s1\<lparr>world := w'\<rparr>, Some data, None)))) \<and>
   (Type (node s a) = File \<and> content (node s a) = Some data \<longrightarrow>
      Contents os s (Some a) = Done (s, Some data, None))"
  by (auto simp: Contents_def read_def URI_def node_upd_node)

theorem Contents_cache_witness:
  "Type (node built 3) \<noteq> File \<and>
   Contents fs_os built (Some 3) = Done (built, None, Some ExceptionInvalidFileNode) \<and>
   Type (node built 1) = File \<and> 1 < length (nodes built) \<and> content (node built 1) = None \<and>
   fp_abs fs_os (world built) (Path (node built 1)) = Inr ''/r/a.txt'' \<and>
   os_read_file fs_os (world built) ''/r/a.txt'' = Inr [104, 105] \<and>
   (\<exists>s1. Contents fs_os built (Some 1) = Done (s1, Some [104, 105], None) \<and>
         content (node s1 1) = Some [104, 105] \<and>
         trace s1 = trace built @ [Call_Abs (Path (node built 1)) None, Call_ReadFile ''/r/a.txt'' None] \<and>
         Contents fs_os (s1\<lparr>world := []\<rparr>) (Some 1) = Done (s1\<lparr>world := []\<rparr>, Some [104, 105], None))"
proof -
  have h1: "Type (node built 3) \<noteq> File" by code_simp
  have h2: "Type (node built 1) = File \<and> 1 < length (nodes built) \<and> content (node built 1) = None \<and>
    fp_abs fs_os (world built) (Path (node built 1)) = Inr ''/r/a.txt'' \<and>
    os_read_file fs_os (world built) ''/r/a.txt'' = Inr [104, 105]" by code_simp
  from Contents_cache[of fs_os built 3] h1
  have c1: "Contents fs_os built (Some 3) = Done (built, None, Some ExceptionInvalidFileNode)" by simp
  from Contents_cache[of fs_os built 1 "''/r/a.txt''" "[104, 105]"] h2
  obtain s1 where "Contents fs_os built (Some 1) = Done (s1, Some [104, 105], None)"
    "content (node s1 1) = Some [104, 105]"
    "trace s1 = trace built @ [Call_Abs (Path (node built 1)) None, Call_ReadFile ''/r/a.txt'' None]"
    "\<forall>os' w'. Contents os' (s1\<lparr>world := w'\<rparr>) (Some 1) = Done (s1\<lparr>world := w'\<rparr>, Some [104, 105], None)"
    by blast
  with h1 h2 c1 show ?thesis by blast
qed


section \<open>Construction: the claims\<close>

text \<open>
  Claim C8. In the tree that \<^verbatim>\<open>New\<close> returns, the root has depth 0 and no parent, and
  every other node has a parent in the tree whose depth is one less.
\<close>

theorem depth_of_nodes:
  assumes "New k os s0 path = Done (s, r)"
  shows "depth (node s r) = 0 \<and> parent (node s r) = None \<and>
         (\<forall>a. r < a \<and> a < length (nodes s) \<longrightarrow>
            (\<exists>p. parent (node s a) = Some p \<and> r \<le> p \<and> p < a \<and>
                 depth (node s a) = depth (node s p) + 1))"
proof -
  from New_tree(2)[OF assms] have "chain r (length (nodes s)) s" by (simp add: ctx_def)
  then have "\<forall>a. r < a \<and> a < length (nodes s) \<longrightarrow>
            (\<exists>p. parent (node s a) = Some p \<and> r \<le> p \<and> p < a \<and>
                 depth (node s a) = depth (node s p) + 1)"
    by (simp add: chain_def linked_def)
  with New_tree(4)[OF assms] show ?thesis by simp
qed

theorem depth_of_nodes_witness:
  "New 5 fs_os (boot disk) ''r'' = Done (built, 0) \<and> depth (node built 0) = 0 \<and>
   parent (node built 4) = Some 3 \<and> depth (node built 4) = depth (node built 3) + 1 \<and>
   depth (node built 4) = 2"
proof -
  have h: "New 5 fs_os (boot disk) ''r'' = Done (built, 0)" by (rule New_built)
  have l: "4 < length (nodes built)" and p: "parent (node built 4) = Some 3"
    and d: "depth (node built 4) = 2" by code_simp+
  note t = depth_of_nodes[OF h]
  from t have d0: "depth (node built 0) = 0" by simp
  from t have "\<exists>p. parent (node built 4) = Some p \<and> 0 \<le> p \<and> p < 4 \<and>
      depth (node built 4) = depth (node built p) + 1"
    using l by (elim conjE allE[of _ 4]) simp
  with p have "depth (node built 4) = depth (node built 3) + 1" by auto
  with h p d d0 show ?thesis by simp
qed


text \<open>
  Claim C1. When \<^verbatim>\<open>add\<close> inserts a directory child \<open>c\<close> under \<open>n\<close> during a construction
  (the invariant \<open>ctx\<close> holds, \<open>c\<close> is the node just allocated), it first walks the child:
  in the state \<open>s1\<close> that walk returns, \<open>c\<close> is in neither the global index nor the map
  of \<open>n\<close>, and \<open>n\<close> holds no copy of it yet. The registration that follows changes no node
  and no map of the subtree of \<open>c\<close>, and the copy appended to \<open>n\<close> is the value of \<open>c\<close>
  that the walk returned. So in the tree that \<^verbatim>\<open>New\<close> returns, the copy a parent holds of a
  node is the node's own final value, every copy a node holds is the final value of a node of
  the tree, and every map of a node of the tree holds nodes of the tree only: what is
  reached through an index has all of its subtree.
\<close>

theorem subtree_before_registration:
  "(add k os s n c = Done s' \<and> Type (node s c) = Directory \<and> ctx b g c s \<and> b \<le> n \<and> n < c \<and>
    Suc c = length (nodes s) \<longrightarrow>
      (\<exists>s1 tn. walk k os (attach n c s) c = Done s1 \<and> enroll n c s1 = Done s' \<and>
         table (node s1 n) = Some tn \<and>
         (\<forall>key. (key, c) \<notin> set (tables s1 ! g)) \<and> (\<forall>key. (key, c) \<notin> set (tables s1 ! tn)) \<and>
         Nodes (node s1 n) = Nodes (node s n) \<and>
         length (nodes s') = length (nodes s1) \<and>
         (\<forall>a. c \<le> a \<and> a < length (nodes s1) \<longrightarrow> node s' a = node s1 a) \<and>
         length (tables s') = length (tables s1) \<and>
         (\<forall>t. length (tables s) \<le> t \<and> t < length (tables s1) \<longrightarrow> tables s' ! t = tables s1 ! t) \<and>
         Nodes (node s' n) = Nodes (node s n) @ [node s1 c])) \<and>
   (New k os s0 path = Done (u, r) \<longrightarrow>
      (\<forall>a. r < a \<and> a < length (nodes u) \<longrightarrow>
         (\<exists>p. parent (node u a) = Some p \<and> r \<le> p \<and> p < a \<and> node u a \<in> set (Nodes (node u p)))) \<and>
      (\<forall>p. r \<le> p \<and> p < length (nodes u) \<longrightarrow>
         copies u (Suc p) (length (nodes u)) (Nodes (node u p)) \<and>
         (\<exists>t. table (node u p) = Some t \<and>
            (\<forall>key v. (key, v) \<in> set (tables u ! t) \<longrightarrow> r < v \<and> v < length (nodes u)))))"
proof (intro conjI impI)
  assume "add k os s n c = Done s' \<and> Type (node s c) = Directory \<and> ctx b g c s \<and> b \<le> n \<and> n < c \<and>
    Suc c = length (nodes s)"
  then have "add k os s n c = Done s'" "Type (node s c) = Directory" "ctx b g c s" "b \<le> n" "n < c"
    "Suc c = length (nodes s)" by simp_all
  then show "\<exists>s1 tn. walk k os (attach n c s) c = Done s1 \<and> enroll n c s1 = Done s' \<and>
         table (node s1 n) = Some tn \<and>
         (\<forall>key. (key, c) \<notin> set (tables s1 ! g)) \<and> (\<forall>key. (key, c) \<notin> set (tables s1 ! tn)) \<and>
         Nodes (node s1 n) = Nodes (node s n) \<and>
         length (nodes s') = length (nodes s1) \<and>
         (\<forall>a. c \<le> a \<and> a < length (nodes s1) \<longrightarrow> node s' a = node s1 a) \<and>
         length (tables s') = length (tables s1) \<and>
         (\<forall>t. length (tables s) \<le> t \<and> t < length (tables s1) \<longrightarrow> tables s' ! t = tables s1 ! t) \<and>
         Nodes (node s' n) = Nodes (node s n) @ [node s1 c]"
    by (rule add_directory)
next
  assume n: "New k os s0 path = Done (u, r)"
  note c = New_tree(2)[OF n]
  show "\<forall>a. r < a \<and> a < length (nodes u) \<longrightarrow>
         (\<exists>p. parent (node u a) = Some p \<and> r \<le> p \<and> p < a \<and> node u a \<in> set (Nodes (node u p)))"
  proof (intro allI impI)
    fix a assume a: "r < a \<and> a < length (nodes u)"
    with New_tree(3)[OF n, of a] have "snapped u a" by (simp add: fine_def)
    moreover from c a have "linked r u a" by (simp add: ctx_def chain_def)
    ultimately show "\<exists>p. parent (node u a) = Some p \<and> r \<le> p \<and> p < a \<and> node u a \<in> set (Nodes (node u p))"
      by (auto simp: snapped_def linked_def)
  qed
  show "\<forall>p. r \<le> p \<and> p < length (nodes u) \<longrightarrow>
         copies u (Suc p) (length (nodes u)) (Nodes (node u p)) \<and>
         (\<exists>t. table (node u p) = Some t \<and>
            (\<forall>key v. (key, v) \<in> set (tables u ! t) \<longrightarrow> r < v \<and> v < length (nodes u)))"
  proof (intro allI impI)
    fix p assume p: "r \<le> p \<and> p < length (nodes u)"
    then have p': "r \<le> p" "p < length (nodes u)" by simp_all
    from ctx_table[OF c p'] have "\<exists>t. table (node u p) = Some t \<and>
            (\<forall>key v. (key, v) \<in> set (tables u ! t) \<longrightarrow> r < v \<and> v < length (nodes u))"
      by blast
    with New_copies[OF n p'] show "copies u (Suc p) (length (nodes u)) (Nodes (node u p)) \<and>
         (\<exists>t. table (node u p) = Some t \<and>
            (\<forall>key v. (key, v) \<in> set (tables u ! t) \<longrightarrow> r < v \<and> v < length (nodes u)))"
      by simp
  qed
qed

theorem subtree_before_registration_witness:
  "add 5 fs_os half 0 1 = Done whole \<and> Type (node half 1) = Directory \<and> ctx 0 0 1 half \<and>
   Suc 1 = length (nodes half) \<and>
   walk 5 fs_os (attach 0 1 half) 1 = Done walked \<and> enroll 0 1 walked = Done whole \<and>
   (''r/b'', 1) \<notin> set (tables walked ! 0) \<and> Nodes (node walked 0) = [] \<and>
   map Path (Nodes (node walked 1)) = [''r/b/c.txt''] \<and> tables walked ! 0 = [(''r/b/c.txt'', 2)] \<and>
   node whole 1 = node walked 1 \<and> node whole 2 = node walked 2 \<and>
   Nodes (node whole 0) = [node walked 1] \<and>
   New 5 fs_os (boot disk) ''r'' = Done (built, 0) \<and>
   parent (node built 4) = Some 3 \<and> node built 4 \<in> set (Nodes (node built 3))"
proof -
  have a: "add 5 fs_os half 0 1 = Done whole" by code_simp
  have w: "walk 5 fs_os (attach 0 1 half) 1 = Done walked" by code_simp
  have d: "Type (node half 1) = Directory" "Suc 1 = length (nodes half)"
    "map Path (Nodes (node walked 1)) = [''r/b/c.txt'']" "tables walked ! 0 = [(''r/b/c.txt'', 2)]"
    "Nodes (node half 0) = []" "length (nodes walked) = 3"
    by code_simp+
  have p: "parent (node built 4) = Some 3" "4 < length (nodes built)" by code_simp+
  note t = subtree_before_registration[of 5 fs_os half 0 1 whole 0 0 "boot disk" "''r''" built 0]
  note ta = t[THEN conjunct1] and tb = t[THEN conjunct2]
  from ta a d(1,2) ctx_half obtain s1 where s1: "walk 5 fs_os (attach 0 1 half) 1 = Done s1"
    "enroll 0 1 s1 = Done whole" "\<forall>key. (key, 1) \<notin> set (tables s1 ! 0)"
    "Nodes (node s1 0) = Nodes (node half 0)"
    "\<forall>a. 1 \<le> a \<and> a < length (nodes s1) \<longrightarrow> node whole a = node s1 a"
    "Nodes (node whole 0) = Nodes (node half 0) @ [node s1 1]"
    by auto
  from s1(1) w have eq: "s1 = walked" by simp
  from s1(5) eq d have n12: "node whole 1 = node walked 1" "node whole 2 = node walked 2" by simp_all
  from tb New_built have "\<forall>a. 0 < a \<and> a < length (nodes built) \<longrightarrow>
         (\<exists>q. parent (node built a) = Some q \<and> 0 \<le> q \<and> q < a \<and> node built a \<in> set (Nodes (node built q)))"
    by simp
  then have "\<exists>q. parent (node built 4) = Some q \<and> 0 \<le> q \<and> q < 4 \<and>
      node built 4 \<in> set (Nodes (node built q))"
    using p(2) by (elim allE[of _ 4]) simp
  with p have b: "node built 4 \<in> set (Nodes (node built 3))" by auto
  from a w d ctx_half s1 eq n12 New_built p b show ?thesis by simp
qed


text \<open>
  Claim C7. On every node of the tree that \<^verbatim>\<open>New\<close> returns, \<^verbatim>\<open>Map\<close> returns one and the same
  map: the one allocated for the root. It holds the path of every node other than the root,
  under a node of the tree that has this path. A store under a path that is there leaves
  the state as it is, and an entry of any map is still there after any \<^verbatim>\<open>add\<close>: the first
  registration of a path wins.
\<close>

theorem global_index:
  "(New k os s0 path = Done (s, r) \<longrightarrow>
      table (node s r) = Some (length (tables s0)) \<and>
      (\<forall>a. r \<le> a \<and> a < length (nodes s) \<longrightarrow> Map s a = Some (Some (length (tables s0)))) \<and>
      (\<forall>a. r < a \<and> a < length (nodes s) \<longrightarrow>
         (\<exists>v. map_of (tables s ! length (tables s0)) (Path (node s a)) = Some v \<and>
              r < v \<and> v < length (nodes s) \<and> Path (node s v) = Path (node s a)))) \<and>
   (map_of (tables s1 ! t) key = Some v \<longrightarrow> register (Some t) key c s1 = Done s1) \<and>
   (add k os s1 n c = Done s2 \<and> c < length (nodes s1) \<and> t < length (tables s1) \<and>
    map_of (tables s1 ! t) key = Some v \<longrightarrow> map_of (tables s2 ! t) key = Some v)"
proof (intro conjI impI)
  assume n: "New k os s0 path = Done (s, r)"
  from New_tree(4)[OF n] show tb: "table (node s r) = Some (length (tables s0))" by simp
  show "\<forall>a. r \<le> a \<and> a < length (nodes s) \<longrightarrow> Map s a = Some (Some (length (tables s0)))"
  proof (intro allI impI)
    fix a assume "r \<le> a \<and> a < length (nodes s)"
    with New_Root[OF n, of a] tb show "Map s a = Some (Some (length (tables s0)))"
      by (simp add: Map_def)
  qed
  show "\<forall>a. r < a \<and> a < length (nodes s) \<longrightarrow>
         (\<exists>v. map_of (tables s ! length (tables s0)) (Path (node s a)) = Some v \<and>
              r < v \<and> v < length (nodes s) \<and> Path (node s v) = Path (node s a))"
  proof (intro allI impI)
    fix a assume "r < a \<and> a < length (nodes s)"
    with New_tree(3)[OF n, of a] have "indexed r (length (tables s0)) s a" by (simp add: fine_def)
    then show "\<exists>v. map_of (tables s ! length (tables s0)) (Path (node s a)) = Some v \<and>
              r < v \<and> v < length (nodes s) \<and> Path (node s v) = Path (node s a)"
      by (simp add: indexed_def)
  qed
next
  assume "map_of (tables s1 ! t) key = Some v"
  then show "register (Some t) key c s1 = Done s1" by (simp add: register_def)
next
  assume h: "add k os s1 n c = Done s2 \<and> c < length (nodes s1) \<and> t < length (tables s1) \<and>
    map_of (tables s1 ! t) key = Some v"
  then have "frame c n s1 s2" by (auto intro: frame_add)
  with h show "map_of (tables s2 ! t) key = Some v" by (simp add: frame_def)
qed


theorem global_index_witness:
  "New 5 fs_os (boot disk) ''r'' = Done (built, 0) \<and> Map built 0 = Some (Some 0) \<and>
   Map built 4 = Some (Some 0) \<and> map fst (tables built ! 0) = [''r/a.txt'', ''r/l'', ''r/b/c.txt'', ''r/b''] \<and>
   Path (node built 4) = ''r/b/c.txt'' \<and> map_of (tables built ! 0) ''r/b/c.txt'' = Some 4 \<and>
   map_of (tables built ! 0) ''r/b'' = Some 3 \<and> register (Some 0) ''r/b'' 9 built = Done built"
proof -
  have l: "4 < length (nodes built)" "0 < length (nodes built)"
    and p: "map fst (tables built ! 0) = [''r/a.txt'', ''r/l'', ''r/b/c.txt'', ''r/b'']"
      "Path (node built 4) = ''r/b/c.txt''" "map_of (tables built ! 0) ''r/b/c.txt'' = Some 4"
      "map_of (tables built ! 0) ''r/b'' = Some 3"
    by code_simp+
  note t = global_index[of 5 fs_os "boot disk" "''r''" built 0 built 0 "''r/b''" 3 9]
  note ta = t[THEN conjunct1] and tb = t[THEN conjunct2, THEN conjunct1]
  from ta New_built have m: "\<forall>a. 0 \<le> a \<and> a < length (nodes built) \<longrightarrow> Map built a = Some (Some 0)"
    by (simp add: boot_def)
  from m l(1) have m4: "Map built 4 = Some (Some 0)" by (elim allE[of _ 4]) simp
  from m l(2) have m0: "Map built 0 = Some (Some 0)" by (elim allE[of _ 0]) simp
  from tb p(4) have "register (Some 0) ''r/b'' 9 built = Done built" by simp
  with New_built m0 m4 p show ?thesis by simp
qed

text \<open>
  Claim C3. In the tree that \<^verbatim>\<open>New\<close> returns, every node, and every copy nested in it (the
  copies are what is serialised), has one of the three type tags, and has a digest exactly
  if its tag is \<^verbatim>\<open>File\<close>. The digest is computed once for each file node: the construction
  opens as many files for hashing as the tree has file nodes, each inside the \<^verbatim>\<open>add\<close> that
  inserts the node.
\<close>

theorem kinds_and_digests:
  assumes "New k os s0 path = Done (s, r)"
  shows "(\<forall>a. r \<le> a \<and> a < length (nodes s) \<longrightarrow> every typed (node s a)) \<and>
         opens (trace s) = opens (trace s0) + files s r (length (nodes s))"
proof -
  have t: "typed (node s a)" if a: "r \<le> a" "a < length (nodes s)" for a
  proof (cases "a = r")
    case True
    with New_tree(4)[OF assms] show ?thesis by (simp add: typed_def)
  next
    case False
    with a New_tree(3)[OF assms, of a] show ?thesis by (simp add: fine_def)
  qed
  have "every typed (node s a)" if a: "r \<le> a" "a < length (nodes s)" for a
    by (rule every_live[of r "length (nodes s)" typed s a "node s a"])
       (simp_all add: t New_copies[OF assms] a)
  with New_opens[OF assms] show ?thesis by simp
qed

theorem kinds_and_digests_witness:
  "New 5 fs_os (boot disk) ''r'' = Done (built, 0) \<and> every typed (node built 0) \<and>
   map Type (nodes built) = [Directory, File, Symbolic, Directory, File] \<and>
   map Checksum (nodes built) = [None, Some ''6869'', None, None, Some ''6f6b''] \<and>
   opens (trace built) = 2 \<and> files built 0 5 = 2"
proof -
  have l: "0 < length (nodes built)" "length (nodes built) = 5"
    and p: "map Type (nodes built) = [Directory, File, Symbolic, Directory, File]"
      "map Checksum (nodes built) = [None, Some ''6869'', None, None, Some ''6f6b'']"
      "files built 0 5 = 2" "opens (trace (boot disk)) = 0"
    by code_simp+
  note t = kinds_and_digests[OF New_built]
  from t l(1) have e: "every typed (node built 0)" by (elim conjE allE[of _ 0]) simp
  from t l(2) p(3,4) have "opens (trace built) = 2" by simp
  with New_built e p show ?thesis by simp
qed

end
